theory Spec2Isabelle
  imports Main
begin

section \<open>List splicing\<close>

text \<open>
  The host language's \<^verbatim>\<open>Array.prototype.splice(start, deleteCount, ...items)\<close> on
  integer arguments, as the language standard defines it: a negative start counts from the
  end and is clamped at zero, a start past the end is clamped to the length, and the delete
  count is clamped between zero and what is left after the start.
\<close>

definition Array_splice :: "'a list \<Rightarrow> int \<Rightarrow> int \<Rightarrow> 'a list \<Rightarrow> 'a list" where
  "Array_splice list start deleteCount items =
     (let len = int (length list);
          actualStart = (if start < 0 then max (len + start) 0 else min start len);
          actualDeleteCount = min (max deleteCount 0) (len - actualStart)
      in take (nat actualStart) list @ items @ drop (nat (actualStart + actualDeleteCount)) list)"

text \<open>\<^verbatim>\<open>items.slice(from, to)\<close> for indices that are not negative.\<close>

definition slice :: "'a list \<Rightarrow> nat \<Rightarrow> nat \<Rightarrow> 'a list" where
  "slice items from to = take (to - from) (drop from items)"

text \<open>
  The chunked insertion loop of \<^verbatim>\<open>splice\<close>: while \<^verbatim>\<open>chunkStart < items.length\<close>,
  insert the next 10000 items at \<^verbatim>\<open>start\<close> and advance both by 10000.
\<close>

function splice_chunks :: "'a list \<Rightarrow> nat \<Rightarrow> int \<Rightarrow> 'a list \<Rightarrow> 'a list" where
  "splice_chunks list chunkStart start items =
     (if chunkStart < length items
      then splice_chunks
             (Array_splice list start 0 (slice items chunkStart (chunkStart + 10000)))
             (chunkStart + 10000) (start + 10000) items
      else list)"
  by pat_completeness auto
termination
  by (relation "measure (\<lambda>(list, chunkStart, start, items). length items - chunkStart)") auto

declare splice_chunks.simps [simp del]

definition splice :: "'a list \<Rightarrow> int \<Rightarrow> int \<Rightarrow> 'a list \<Rightarrow> 'a list" where
  "splice list start remove items =
     (let end = int (length list);
          start = (if start < 0 then (if - start > end then 0 else end + start)
                   else (if start > end then end else start));
          remove = (if remove > 0 then remove else 0)
      in if length items < 10000
         then Array_splice list start remove items
         else splice_chunks
                (if remove \<noteq> 0 then Array_splice list start remove [] else list)
                0 start items)"

section \<open>Character codes and strings\<close>

text \<open>
  The tokenizer reads character codes: a non-negative code is a character, the negative
  codes are virtual (\<open>-5\<close> carriage return, \<open>-4\<close> line feed, \<open>-3\<close> carriage return
  plus line feed, \<open>-2\<close> horizontal tab, \<open>-1\<close> virtual space), and the end of input
  (\<^verbatim>\<open>null\<close>) is the end of the code list. A string of the host language is the list of
  its code units.
\<close>

type_synonym code = int
type_synonym jsstring = "nat list"

definition utf16 :: "string \<Rightarrow> jsstring" where
  "utf16 s = map of_char s"

definition codes :: "string \<Rightarrow> code list" where
  "codes s = map of_char s"

definition markdownLineEnding :: "code \<Rightarrow> bool" where
  "markdownLineEnding code = (code < - 2)"

definition markdownLineEndingOrSpace :: "code \<Rightarrow> bool" where
  "markdownLineEndingOrSpace code = (code < 0 \<or> code = 32)"

definition markdownSpace :: "code \<Rightarrow> bool" where
  "markdownSpace code = (code = - 2 \<or> code = - 1 \<or> code = 32)"

text \<open>
  Modelled from the spec: the host tokenizer's \<^verbatim>\<open>sliceSerialize\<close> is not part of the
  source; it turns the codes a token covers back into text. Section 3 fixes the alphabet
  (real characters, line endings, tab and the virtual spaces of tab expansion): a line
  ending gives its characters, a tab gives a tab (a space when tabs are expanded), the
  virtual spaces after a tab give nothing (a space each when tabs are expanded), and a
  character code gives its character.
\<close>

fun serializeChunks_from :: "bool \<Rightarrow> code list \<Rightarrow> bool \<Rightarrow> jsstring" where
  "serializeChunks_from atTab [] expandTabs = []"
| "serializeChunks_from atTab (chunk # chunks) expandTabs =
     (if chunk = - 5 then [13] @ serializeChunks_from False chunks expandTabs
      else if chunk = - 4 then [10] @ serializeChunks_from False chunks expandTabs
      else if chunk = - 3 then [13, 10] @ serializeChunks_from False chunks expandTabs
      else if chunk = - 2 then
        (if expandTabs then [32] else [9]) @ serializeChunks_from True chunks expandTabs
      else if chunk = - 1 then
        (if expandTabs then [32] @ serializeChunks_from False chunks expandTabs
         else if atTab then serializeChunks_from atTab chunks expandTabs
         else [32] @ serializeChunks_from False chunks expandTabs)
      else [nat chunk] @ serializeChunks_from False chunks expandTabs)"

definition serializeChunks :: "code list \<Rightarrow> bool \<Rightarrow> jsstring" where
  "serializeChunks chunks expandTabs = serializeChunks_from False chunks expandTabs"

subsection \<open>Identifier normalisation\<close>

text \<open>
  \<^verbatim>\<open>String.prototype.toLowerCase\<close> and \<^verbatim>\<open>toUpperCase\<close> belong to the host
  language and not to the source: they map a whole string by the case tables of the
  Unicode standard, and the upper-casing can lengthen the string. They are a parameter
  of the model, so that what is proved holds whatever the tables are.
\<close>

record caseMapping =
  toLowerCase :: "jsstring \<Rightarrow> jsstring"
  toUpperCase :: "jsstring \<Rightarrow> jsstring"

text \<open>The character class \<^verbatim>\<open>[\t\n\r ]\<close>.\<close>

definition markdownWhitespace :: "nat \<Rightarrow> bool" where
  "markdownWhitespace u = (u = 9 \<or> u = 10 \<or> u = 13 \<or> u = 32)"

text \<open>
  \<^verbatim>\<open>value.replace(/[\t\n\r ]+/g, ' ')\<close>: scanning from the left, the longest run of
  whitespace at the current position is replaced by one space.
\<close>

function collapseWhitespace :: "jsstring \<Rightarrow> jsstring" where
  "collapseWhitespace [] = []"
| "collapseWhitespace (u # us) =
     (if markdownWhitespace u then 32 # collapseWhitespace (dropWhile markdownWhitespace us)
      else u # collapseWhitespace us)"
  by pat_completeness auto
termination
  by (relation "measure length") (auto simp: length_dropWhile_le less_Suc_eq_le)

text \<open>
  \<^verbatim>\<open>value.replace(/^ | $/g, '')\<close>: scanning from the left, a space is removed when it
  stands at the start of the string or at its end. The flag says whether the scan is
  still at the start.
\<close>

fun trimScan :: "bool \<Rightarrow> jsstring \<Rightarrow> jsstring" where
  "trimScan atStart [] = []"
| "trimScan atStart (u # us) =
     (if u = 32 \<and> (atStart \<or> us = []) then trimScan False us
      else u # trimScan False us)"

definition normalizeIdentifier :: "caseMapping \<Rightarrow> jsstring \<Rightarrow> jsstring" where
  "normalizeIdentifier cm value =
     toUpperCase cm (toLowerCase cm (trimScan True (collapseWhitespace value)))"

text \<open>
  The transformation as the specification words it: every run of markdown whitespace
  becomes one space, one leading and one trailing space are dropped, the result is
  lower-cased and then upper-cased.
\<close>

fun collapseRuns :: "jsstring \<Rightarrow> jsstring" where
  "collapseRuns [] = []"
| "collapseRuns [u] = [if markdownWhitespace u then 32 else u]"
| "collapseRuns (u # v # us) =
     (if markdownWhitespace u
      then (if markdownWhitespace v then collapseRuns (v # us) else 32 # collapseRuns (v # us))
      else u # collapseRuns (v # us))"

definition trimOne :: "jsstring \<Rightarrow> jsstring" where
  "trimOne s =
     (let s1 = (case s of [] \<Rightarrow> [] | u # us \<Rightarrow> if u = 32 then us else s)
      in if s1 = [] then [] else if last s1 = 32 then butlast s1 else s1)"

definition foldIdentifier :: "caseMapping \<Rightarrow> jsstring \<Rightarrow> jsstring" where
  "foldIdentifier cm raw = toUpperCase cm (toLowerCase cm (trimOne (collapseRuns raw)))"

subsection \<open>The case tables of two blocks\<close>

text \<open>
  For the examples, the case tables of the host language on the letters of the blocks
  Basic Latin and Latin-1 Supplement: the capital letters A to Z and \<^verbatim>\<open>U+00C0\<close> to
  \<^verbatim>\<open>U+00DE\<close> (the multiplication sign apart) have their small letter 32 places on, and
  the other way round; the sharp s \<^verbatim>\<open>U+00DF\<close> is upper-cased to the two letters SS,
  the y with diaeresis \<^verbatim>\<open>U+00FF\<close> to \<^verbatim>\<open>U+0178\<close> and the micro sign
  \<^verbatim>\<open>U+00B5\<close> to \<^verbatim>\<open>U+039C\<close>, and these two capital letters are lower-cased to
  \<^verbatim>\<open>U+00FF\<close> and to \<^verbatim>\<open>U+03BC\<close>. Every other code unit is left as it is, so this
  is the mapping of the host language on text of these two blocks only.
\<close>

definition lowerUnit :: "nat \<Rightarrow> nat" where
  "lowerUnit u =
     (if (65 \<le> u \<and> u \<le> 90) \<or> (192 \<le> u \<and> u \<le> 222 \<and> u \<noteq> 215) then u + 32
      else if u = 376 then 255
      else if u = 924 then 956
      else u)"

definition upperUnit :: "nat \<Rightarrow> jsstring" where
  "upperUnit u =
     (if (97 \<le> u \<and> u \<le> 122) \<or> (224 \<le> u \<and> u \<le> 254 \<and> u \<noteq> 247) then [u - 32]
      else if u = 223 then [83, 83]
      else if u = 255 then [376]
      else if u = 181 then [924]
      else [u])"

definition latin1 :: caseMapping where
  "latin1 = \<lparr>toLowerCase = map lowerUnit, toUpperCase = (\<lambda>s. concat (map upperUnit s))\<rparr>"

section \<open>Tokens, events and the tokenizer context\<close>

datatype tokenType =
    footnoteCall | footnoteCallLabelMarker | footnoteCallMarker | footnoteCallString
  | chunkString
  | inlineNoteStart | inlineNoteMarker | inlineNoteStartMarker
  | inlineNoteEnd | inlineNoteEndMarker | inlineNote | inlineNoteText
  | footnoteDefinition | footnoteDefinitionLabel | footnoteDefinitionLabelMarker
  | footnoteDefinitionMarker | footnoteDefinitionLabelString | definitionMarker
  | footnoteDefinitionWhitespace | footnoteDefinitionIndent
  | lineEnding | linePrefix | data

datatype phase = enter | exit

text \<open>
  A token has a type and covers the codes from its start to its end; positions are
  offsets into the codes consumed so far. Tokens are objects: the enter event and the
  exit event of a token hold the same object, and a resolver that changes the type of a
  token changes it for both. The store maps a token's address to the token, and an
  event holds the address.
\<close>

record token =
  ttype :: tokenType
  tstart :: nat
  tend :: nat

type_synonym event = "phase \<times> nat"

text \<open>
  The tokenizer context (\<^verbatim>\<open>self\<close> in the source, with the parser it belongs to): the
  token store and its next free address, the events so far, the stack of open tokens,
  the codes consumed so far, and the list of footnote identifiers defined so far in this
  parse (\<^verbatim>\<open>self.parser.footnotes\<close>).
\<close>

record tokenizeContext =
  store :: "nat \<Rightarrow> token"
  fresh :: nat
  events :: "event list"
  stack :: "nat list"
  chunks :: "code list"
  footnotes :: "jsstring list"

definition emptyContext :: tokenizeContext where
  "emptyContext =
     \<lparr>store = (\<lambda>a. \<lparr>ttype = data, tstart = 0, tend = 0\<rparr>), fresh = 0, events = [],
      stack = [], chunks = [], footnotes = []\<rparr>"

text \<open>
  Modelled from the spec: the host's effects are not part of the source. By section 3,
  tokens are produced by the enter and exit operations and own the range of codes they
  cover: \<^verbatim>\<open>enter\<close> opens a token of the given type at the current position,
  \<^verbatim>\<open>exit\<close> closes the innermost open token at the current position, and
  \<^verbatim>\<open>consume\<close> moves past one code.
\<close>

definition effects_enter :: "tokenType \<Rightarrow> tokenizeContext \<Rightarrow> tokenizeContext" where
  "effects_enter type c =
     c\<lparr>store := (store c)(fresh c :=
                   \<lparr>ttype = type, tstart = length (chunks c), tend = length (chunks c)\<rparr>),
       fresh := fresh c + 1,
       events := events c @ [(enter, fresh c)],
       stack := fresh c # stack c\<rparr>"

definition effects_exit :: "tokenType \<Rightarrow> tokenizeContext \<Rightarrow> tokenizeContext" where
  "effects_exit type c =
     (case stack c of
        [] \<Rightarrow> c
      | t # ts \<Rightarrow>
          c\<lparr>store := (store c)(t := (store c t)\<lparr>tend := length (chunks c)\<rparr>),
            events := events c @ [(exit, t)],
            stack := ts\<rparr>)"

text \<open>The token that the next \<^verbatim>\<open>exit\<close> closes and returns.\<close>

definition exit_token :: "tokenizeContext \<Rightarrow> nat" where
  "exit_token c = (case stack c of [] \<Rightarrow> fresh c | t # ts \<Rightarrow> t)"

definition effects_consume :: "code \<Rightarrow> tokenizeContext \<Rightarrow> tokenizeContext" where
  "effects_consume code c = c\<lparr>chunks := chunks c @ [code]\<rparr>"

definition sliceSerialize :: "tokenizeContext \<Rightarrow> nat \<Rightarrow> bool \<Rightarrow> jsstring" where
  "sliceSerialize c t expandTabs =
     serializeChunks (slice (chunks c) (tstart (store c t)) (tend (store c t))) expandTabs"

text \<open>
  A tokenizer either fails (\<^verbatim>\<open>nok\<close>), and the host rewinds to where the attempt
  started, or succeeds (\<^verbatim>\<open>ok\<close>) with the context it built and the codes left.
\<close>

datatype 'a result = nok | ok 'a

text \<open>The context a successful attempt built.\<close>

definition contextOf :: "(tokenizeContext \<times> code list) result \<Rightarrow> tokenizeContext" where
  "contextOf r = (case r of ok (c, rest) \<Rightarrow> c | nok \<Rightarrow> emptyContext)"

section \<open>Space and blank line consumers\<close>

text \<open>
  \<^verbatim>\<open>factorySpace(effects, ok, type, max)\<close>: the limit is \<open>max - 1\<close>, or none when the
  maximum is absent or zero. The loop \<^verbatim>\<open>prefix\<close> consumes markdown spaces while the count of
  those consumed (\<^verbatim>\<open>size\<close>, here \<open>sz\<close>) is below the limit.
\<close>

fun factorySpace_prefix ::
  "tokenType \<Rightarrow> nat option \<Rightarrow> nat \<Rightarrow> tokenizeContext \<Rightarrow> code list \<Rightarrow> tokenizeContext \<times> code list" where
  "factorySpace_prefix type limit sz c [] = (effects_exit type c, [])"
| "factorySpace_prefix type limit sz c (code # rest) =
     (if markdownSpace code \<and> (case limit of None \<Rightarrow> True | Some l \<Rightarrow> sz < l)
      then factorySpace_prefix type limit (sz + 1) (effects_consume code c) rest
      else (effects_exit type c, code # rest))"

fun factorySpace ::
  "tokenType \<Rightarrow> nat option \<Rightarrow> tokenizeContext \<Rightarrow> code list \<Rightarrow> tokenizeContext \<times> code list" where
  "factorySpace type mx c [] = (c, [])"
| "factorySpace type mx c (code # rest) =
     (if markdownSpace code
      then factorySpace_prefix type
             (case mx of None \<Rightarrow> None | Some m \<Rightarrow> if m = 0 then None else Some (m - 1)) 0
             (effects_enter type c) (code # rest)
      else (c, code # rest))"

fun tokenizeBlankLine_after :: "tokenizeContext \<times> code list \<Rightarrow> (tokenizeContext \<times> code list) result" where
  "tokenizeBlankLine_after (c, []) = ok (c, [])"
| "tokenizeBlankLine_after (c, code # rest) =
     (if markdownLineEnding code then ok (c, code # rest) else nok)"

fun tokenizeBlankLine :: "tokenizeContext \<Rightarrow> code list \<Rightarrow> (tokenizeContext \<times> code list) result" where
  "tokenizeBlankLine c [] = tokenizeBlankLine_after (c, [])"
| "tokenizeBlankLine c (code # rest) =
     (if markdownSpace code
      then tokenizeBlankLine_after (factorySpace linePrefix None c (code # rest))
      else tokenizeBlankLine_after (c, code # rest))"

section \<open>The footnote tokenizers\<close>

subsection \<open>Footnote calls\<close>

text \<open>
  The states of \<^verbatim>\<open>tokenizeFootnoteCall\<close>. The local variables \<^verbatim>\<open>size\<close> and
  \<^verbatim>\<open>data\<close> are the arguments \<open>sz\<close> and \<open>dat\<close>; \<^verbatim>\<open>defined\<close> is the
  list of footnote identifiers of the parser. In \<^verbatim>\<open>callData\<close> the test
  \<^verbatim>\<open>size++ > 999\<close> compares the size before the increment, and increments also when
  the code is the closing bracket.
\<close>

definition call_end :: "tokenizeContext \<Rightarrow> code list \<Rightarrow> (tokenizeContext \<times> code list) result" where
  "call_end c input =
     (case input of
        [] \<Rightarrow> nok
      | code # rest \<Rightarrow>
          ok (effects_exit footnoteCall
                (effects_exit footnoteCallLabelMarker
                  (effects_consume code (effects_enter footnoteCallLabelMarker c))),
              rest))"

fun callData ::
    "caseMapping \<Rightarrow> nat \<Rightarrow> bool \<Rightarrow> tokenizeContext \<Rightarrow> code list \<Rightarrow> (tokenizeContext \<times> code list) result"
  and callEscape ::
    "caseMapping \<Rightarrow> nat \<Rightarrow> bool \<Rightarrow> tokenizeContext \<Rightarrow> code list \<Rightarrow> (tokenizeContext \<times> code list) result"
where
  "callData cm sz dat c [] = nok"
| "callData cm sz dat c (code # rest) =
     (if code = 91 \<or> sz > 999 then nok
      else if code = 93 then
        (if \<not> dat then nok
         else
           (let c1 = effects_exit chunkString c;
                token = exit_token c1;
                c2 = effects_exit footnoteCallString c1
            in if normalizeIdentifier cm (sliceSerialize c2 token False) \<in> set (footnotes c2)
               then call_end c2 (code # rest) else nok))
      else
        (let c1 = effects_consume code c;
             dat1 = (if \<not> markdownLineEndingOrSpace code then True else dat)
         in if code = 92 then callEscape cm (sz + 1) dat1 c1 rest
            else callData cm (sz + 1) dat1 c1 rest))"
| "callEscape cm sz dat c [] = callData cm sz dat c []"
| "callEscape cm sz dat c (code # rest) =
     (if code = 91 \<or> code = 92 \<or> code = 93
      then callData cm (sz + 1) dat (effects_consume code c) rest
      else callData cm sz dat c (code # rest))"

definition call_callStart ::
  "caseMapping \<Rightarrow> tokenizeContext \<Rightarrow> code list \<Rightarrow> (tokenizeContext \<times> code list) result" where
  "call_callStart cm c input =
     (case input of
        [] \<Rightarrow> nok
      | code # rest \<Rightarrow>
          if code \<noteq> 94 then nok
          else callData cm 0 False
                 (effects_enter chunkString
                   (effects_enter footnoteCallString
                     (effects_exit footnoteCallMarker
                       (effects_consume code (effects_enter footnoteCallMarker c)))))
                 rest)"

text \<open>
  The host enters the tokenizer at the codes registered for it in the extension, here
  the left square bracket (91) in text; \<^verbatim>\<open>start\<close> consumes that code unseen.
\<close>

definition tokenizeFootnoteCall ::
  "caseMapping \<Rightarrow> tokenizeContext \<Rightarrow> code list \<Rightarrow> (tokenizeContext \<times> code list) result" where
  "tokenizeFootnoteCall cm c input =
     (case input of
        [] \<Rightarrow> nok
      | code # rest \<Rightarrow>
          call_callStart cm
            (effects_exit footnoteCallLabelMarker
              (effects_consume code
                (effects_enter footnoteCallLabelMarker (effects_enter footnoteCall c))))
            rest)"

subsection \<open>Inline notes\<close>

definition tokenizeNoteStart ::
  "tokenizeContext \<Rightarrow> code list \<Rightarrow> (tokenizeContext \<times> code list) result" where
  "tokenizeNoteStart c input =
     (case input of
        [] \<Rightarrow> nok
      | code # rest \<Rightarrow>
          (let c1 = effects_exit inlineNoteMarker
                      (effects_consume code
                        (effects_enter inlineNoteMarker (effects_enter inlineNoteStart c)))
           in case rest of
                [] \<Rightarrow> nok
              | code2 # rest2 \<Rightarrow>
                  if code2 \<noteq> 91 then nok
                  else ok (effects_exit inlineNoteStart
                             (effects_exit inlineNoteStartMarker
                               (effects_consume code2
                                 (effects_enter inlineNoteStartMarker c1))),
                           rest2)))"

definition tokenizeNoteEnd ::
  "tokenizeContext \<Rightarrow> code list \<Rightarrow> (tokenizeContext \<times> code list) result" where
  "tokenizeNoteEnd c input =
     (case input of
        [] \<Rightarrow> nok
      | code # rest \<Rightarrow>
          if \<not> list_ex (\<lambda>e. ttype (store c (snd e)) = inlineNoteStart) (rev (events c))
          then nok
          else ok (effects_exit inlineNoteEnd
                     (effects_exit inlineNoteEndMarker
                       (effects_consume code
                         (effects_enter inlineNoteEndMarker (effects_enter inlineNoteEnd c)))),
                   rest))"

subsection \<open>Footnote definitions\<close>

record containerState =
  initialBlankLine :: bool
  furtherBlankLines :: bool

text \<open>The state of a container that has just been opened: no flag is set.\<close>

definition emptyContainerState :: containerState where
  "emptyContainerState = \<lparr>initialBlankLine = False, furtherBlankLines = False\<rparr>"

type_synonym definitionResult = "(containerState \<times> tokenizeContext \<times> code list) result"

definition definition_done ::
  "jsstring \<Rightarrow> containerState \<Rightarrow> tokenizeContext \<Rightarrow> code list \<Rightarrow> definitionResult" where
  "definition_done identifier cs c input =
     ok (cs,
         (if identifier \<notin> set (footnotes c)
          then c\<lparr>footnotes := footnotes c @ [identifier]\<rparr> else c),
         input)"

definition definition_onBlank ::
  "jsstring \<Rightarrow> containerState \<Rightarrow> tokenizeContext \<Rightarrow> code list \<Rightarrow> definitionResult" where
  "definition_onBlank identifier cs c input =
     definition_done identifier (cs\<lparr>initialBlankLine := True\<rparr>) c input"

definition definition_nonBlank ::
  "jsstring \<Rightarrow> containerState \<Rightarrow> tokenizeContext \<Rightarrow> code list \<Rightarrow> definitionResult" where
  "definition_nonBlank identifier cs c input =
     (case input of
        [] \<Rightarrow> definition_done identifier cs c []
      | code # rest \<Rightarrow>
          if markdownSpace code
          then definition_done identifier cs
                 (effects_exit footnoteDefinitionWhitespace
                   (effects_consume code (effects_enter footnoteDefinitionWhitespace c)))
                 rest
          else definition_done identifier cs c (code # rest))"

text \<open>
  \<^verbatim>\<open>effects.check(blankLine, onBlank, nonBlank)\<close> tries the blank line tokenizer,
  rewinds whatever it did, and goes on with the first state when it succeeded and with
  the second when it failed.
\<close>

definition labelAfter ::
  "jsstring \<Rightarrow> containerState \<Rightarrow> tokenizeContext \<Rightarrow> code list \<Rightarrow> definitionResult" where
  "labelAfter identifier cs c input =
     (case input of
        [] \<Rightarrow> nok
      | code # rest \<Rightarrow>
          if code \<noteq> 58 then nok
          else
            (let c1 = effects_exit definitionMarker
                        (effects_consume code (effects_enter definitionMarker c))
             in case tokenizeBlankLine c1 rest of
                  ok r \<Rightarrow> definition_onBlank identifier cs c1 rest
                | nok \<Rightarrow> definition_nonBlank identifier cs c1 rest))"

text \<open>
  The label states of \<^verbatim>\<open>tokenizeDefinitionStart\<close>: \<^verbatim>\<open>atBreak\<close>, \<^verbatim>\<open>label\<close> (here \<open>definition_label\<close>)
  and \<^verbatim>\<open>labelEscape\<close>, with the local variables \<^verbatim>\<open>size\<close> and \<^verbatim>\<open>data\<close> as
  the arguments \<open>sz\<close> and \<open>dat\<close>.
\<close>

function (sequential) atBreak ::
    "caseMapping \<Rightarrow> containerState \<Rightarrow> nat \<Rightarrow> bool \<Rightarrow> tokenizeContext \<Rightarrow> code list \<Rightarrow> definitionResult"
  and definition_label ::
    "caseMapping \<Rightarrow> containerState \<Rightarrow> nat \<Rightarrow> bool \<Rightarrow> tokenizeContext \<Rightarrow> code list \<Rightarrow> definitionResult"
  and labelEscape ::
    "caseMapping \<Rightarrow> containerState \<Rightarrow> nat \<Rightarrow> bool \<Rightarrow> tokenizeContext \<Rightarrow> code list \<Rightarrow> definitionResult"
where
  "atBreak cm cs sz dat c [] = nok"
| "atBreak cm cs sz dat c (code # rest) =
     (if code = 91 \<or> sz > 999 then nok
      else if code = 93 then
        (if \<not> dat then nok
         else
           (let token = exit_token c;
                c1 = effects_exit footnoteDefinitionLabelString c;
                identifier = normalizeIdentifier cm (sliceSerialize c1 token False);
                c2 = effects_exit footnoteDefinitionLabel
                       (effects_exit footnoteDefinitionLabelMarker
                         (effects_consume code
                           (effects_enter footnoteDefinitionLabelMarker c1)))
            in labelAfter identifier cs c2 rest))
      else if markdownLineEnding code then
        atBreak cm cs (sz + 1) dat
          (effects_exit lineEnding (effects_consume code (effects_enter lineEnding c))) rest
      else definition_label cm cs sz dat (effects_enter chunkString c) (code # rest))"
| "definition_label cm cs sz dat c [] = atBreak cm cs sz dat (effects_exit chunkString c) []"
| "definition_label cm cs sz dat c (code # rest) =
     (if markdownLineEnding code \<or> code = 91 \<or> code = 93 \<or> sz > 999
      then atBreak cm cs sz dat (effects_exit chunkString c) (code # rest)
      else
        (let dat1 = (if \<not> markdownLineEndingOrSpace code then True else dat);
             c1 = effects_consume code c
         in if code = 92 then labelEscape cm cs (sz + 1) dat1 c1 rest
            else definition_label cm cs (sz + 1) dat1 c1 rest))"
| "labelEscape cm cs sz dat c [] = definition_label cm cs sz dat c []"
| "labelEscape cm cs sz dat c (code # rest) =
     (if code = 91 \<or> code = 92 \<or> code = 93
      then definition_label cm cs (sz + 1) dat (effects_consume code c) rest
      else definition_label cm cs sz dat c (code # rest))"
  by pat_completeness auto
termination
  by (relation "measure (\<lambda>x. case x of
        Inl (cm, cs, sz, dat, c, input) \<Rightarrow>
          3 * length input +
          (case input of
             [] \<Rightarrow> 0
           | code # rest \<Rightarrow>
               if markdownLineEnding code \<or> code = 91 \<or> code = 93 \<or> sz > 999 then 0 else 2)
      | Inr (Inl (cm, cs, sz, dat, c, input)) \<Rightarrow> 3 * length input + 1
      | Inr (Inr (cm, cs, sz, dat, c, input)) \<Rightarrow> 3 * length input + 2)")
     (auto split: list.splits)

definition labelStart ::
  "caseMapping \<Rightarrow> containerState \<Rightarrow> tokenizeContext \<Rightarrow> code list \<Rightarrow> definitionResult" where
  "labelStart cm cs c input =
     (case input of
        [] \<Rightarrow> nok
      | code # rest \<Rightarrow>
          if code \<noteq> 94 then nok
          else atBreak cm cs 0 False
                 (effects_enter footnoteDefinitionLabelString
                   (effects_exit footnoteDefinitionMarker
                     (effects_consume code (effects_enter footnoteDefinitionMarker c))))
                 rest)"

text \<open>
  The host enters the tokenizer at the left square bracket (91) at the start of a
  container block; \<^verbatim>\<open>start\<close> consumes that code unseen.
\<close>

definition tokenizeDefinitionStart ::
  "caseMapping \<Rightarrow> containerState \<Rightarrow> tokenizeContext \<Rightarrow> code list \<Rightarrow> definitionResult" where
  "tokenizeDefinitionStart cm cs c input =
     (case input of
        [] \<Rightarrow> nok
      | code # rest \<Rightarrow>
          labelStart cm cs
            (effects_exit footnoteDefinitionLabelMarker
              (effects_consume code
                (effects_enter footnoteDefinitionLabelMarker
                  (effects_enter footnoteDefinitionLabel
                    (effects_enter footnoteDefinition c)))))
            rest)"

subsection \<open>Continuation lines of a definition\<close>

definition afterPrefix ::
  "tokenizeContext \<times> code list \<Rightarrow> (tokenizeContext \<times> code list) result" where
  "afterPrefix r =
     (case r of (c, input) \<Rightarrow>
        if events c = [] then nok
        else
          (let tail = last (events c)
           in if ttype (store c (snd tail)) = footnoteDefinitionIndent
                 \<and> length (sliceSerialize c (snd tail) True) = 4
              then ok (c, input) else nok))"

definition tokenizeIndent ::
  "tokenizeContext \<Rightarrow> code list \<Rightarrow> (tokenizeContext \<times> code list) result" where
  "tokenizeIndent c input =
     afterPrefix (factorySpace footnoteDefinitionIndent (Some (4 + 1)) c input)"

text \<open>
  \<^verbatim>\<open>tokenizeDefinitionContinuation\<close> is tried at the start of each later line. It
  returns the container state, which it changes also when it fails, and the result.
  \<^verbatim>\<open>effects.attempt(indent, ok, nok)\<close> keeps what the indent tokenizer consumed
  when it succeeded.
\<close>

definition continuation_onBlank ::
  "containerState \<Rightarrow> tokenizeContext \<Rightarrow> code list
     \<Rightarrow> containerState \<times> (tokenizeContext \<times> code list) result" where
  "continuation_onBlank cs c input =
     ((if initialBlankLine cs then cs\<lparr>furtherBlankLines := True\<rparr> else cs), ok (c, input))"

definition continuation_notBlank ::
  "containerState \<Rightarrow> tokenizeContext \<Rightarrow> code list
     \<Rightarrow> containerState \<times> (tokenizeContext \<times> code list) result" where
  "continuation_notBlank cs c input =
     (if furtherBlankLines cs \<or> \<not> (case input of [] \<Rightarrow> False | code # rest \<Rightarrow> markdownSpace code)
      then (cs, nok)
      else (cs\<lparr>initialBlankLine := False, furtherBlankLines := False\<rparr>,
            tokenizeIndent c input))"

definition tokenizeDefinitionContinuation ::
  "containerState \<Rightarrow> tokenizeContext \<Rightarrow> code list
     \<Rightarrow> containerState \<times> (tokenizeContext \<times> code list) result" where
  "tokenizeDefinitionContinuation cs c input =
     (case tokenizeBlankLine c input of
        ok r \<Rightarrow> continuation_onBlank cs c input
      | nok \<Rightarrow> continuation_notBlank cs c input)"

subsection \<open>Label bodies\<close>

text \<open>
  What may stand between \<^verbatim>\<open>[^\<close> and the closing bracket, as a grammar of codes: a
  label body is a sequence of units, each either one code that is not a square bracket,
  or a backslash followed by a square bracket or a backslash (a character escape, two
  codes). A backslash before any other code is a unit of its own, and a body does not end
  in such a backslash, since the closing bracket after it would be escaped.
\<close>

fun labelBody :: "code list \<Rightarrow> bool" where
  "labelBody [] = True"
| "labelBody [code] = (code \<noteq> 91 \<and> code \<noteq> 92 \<and> code \<noteq> 93)"
| "labelBody (code # next # rest) =
     (if code = 92
      then (if next = 91 \<or> next = 92 \<or> next = 93 then labelBody rest
            else labelBody (next # rest))
      else code \<noteq> 91 \<and> code \<noteq> 93 \<and> labelBody (next # rest))"

text \<open>A label has data when one of its codes is neither a line ending nor a space.\<close>

definition hasData :: "code list \<Rightarrow> bool" where
  "hasData l = list_ex (\<lambda>code. \<not> markdownLineEndingOrSpace code) l"

text \<open>
  Two invariants of the label states of the definition tokenizer, for the label string
  token \<open>t\<close> with the value \<open>tk\<close> and the open tokens \<open>ts\<close> around it. At a break
  the label string is the innermost open token. Inside a chunk the chunk token, which is
  younger, is open inside it.
\<close>

definition labelOpen :: "tokenizeContext \<Rightarrow> nat \<Rightarrow> token \<Rightarrow> nat list \<Rightarrow> bool" where
  "labelOpen c t tk ts = (stack c = t # ts \<and> t < fresh c \<and> store c t = tk)"

definition chunkOpen :: "tokenizeContext \<Rightarrow> nat \<Rightarrow> token \<Rightarrow> nat list \<Rightarrow> bool" where
  "chunkOpen c t tk ts =
     (\<exists>k. stack c = k # t # ts \<and> t < k \<and> k < fresh c \<and> store c t = tk)"

text \<open>
  What scanning the label body \<open>l\<close> from the context \<open>c\<close>, with the size \<open>sz\<close> and
  the data flag \<open>dat\<close>, comes to, for a run \<open>X\<close> of the definition tokenizer: failure
  when the size passes 999, and otherwise the state \<^verbatim>\<open>atBreak\<close> at the closing
  bracket, with every code of the label counted and consumed.
\<close>

definition scanResult ::
  "caseMapping \<Rightarrow> containerState \<Rightarrow> code list \<Rightarrow> nat \<Rightarrow> token \<Rightarrow> nat list \<Rightarrow> tokenizeContext \<Rightarrow> nat \<Rightarrow> bool
     \<Rightarrow> code list \<Rightarrow> definitionResult \<Rightarrow> bool" where
  "scanResult cm cs rest t tk ts c sz dat l X =
     (if sz + length l > 999 then X = nok
      else (\<exists>c'. X = atBreak cm cs (sz + length l) (dat \<or> hasData l) c' (93 # rest)
                \<and> labelOpen c' t tk ts \<and> chunks c' = chunks c @ l
                \<and> footnotes c' = footnotes c))"

subsection \<open>Labels that differ in casing and whitespace only\<close>

text \<open>
  The words of a text are its longest runs of code units that are not markdown
  whitespace, in order; whitespace before the first word, between two words and after
  the last word separates them and belongs to none.
\<close>

function wordsOf :: "jsstring \<Rightarrow> jsstring list" where
  "wordsOf [] = []"
| "wordsOf (u # us) =
     (if markdownWhitespace u then wordsOf us
      else (u # takeWhile (\<lambda>v. \<not> markdownWhitespace v) us)
           # wordsOf (dropWhile (\<lambda>v. \<not> markdownWhitespace v) us))"
  by pat_completeness auto
termination
  by (relation "measure length") (auto simp: length_dropWhile_le less_Suc_eq_le)

text \<open>Words written one space apart.\<close>

fun spaced :: "jsstring list \<Rightarrow> jsstring" where
  "spaced [] = []"
| "spaced [w] = w"
| "spaced (w # v # ws) = w @ 32 # spaced (v # ws)"

text \<open>
  Two texts differ only in casing and in markdown whitespace when a comparison that sees
  neither finds them equal: their words, written one space apart, are the same text once
  both are lower-cased by the host language. Which whitespace characters separate the
  words, how many of them, and whether whitespace stands before the first or after the
  last word makes no difference, nor does the case of any letter of any script.
\<close>

definition labelEquiv :: "caseMapping \<Rightarrow> jsstring \<Rightarrow> jsstring \<Rightarrow> bool" where
  "labelEquiv cm a b =
     (toLowerCase cm (spaced (wordsOf a)) = toLowerCase cm (spaced (wordsOf b)))"

subsection \<open>Lines\<close>

text \<open>
  The codes from the start of a line on. The line is blank when only markdown spaces stand
  before its line ending or the end of input; its indent is the number of markdown spaces
  it starts with (a space, a tab, or a virtual space of a tab each count one).
\<close>

definition isBlankLine :: "code list \<Rightarrow> bool" where
  "isBlankLine input =
     list_all markdownSpace (takeWhile (\<lambda>code. \<not> markdownLineEnding code) input)"

definition indentOf :: "code list \<Rightarrow> nat" where
  "indentOf input = length (takeWhile markdownSpace input)"

definition accepted :: "'a result \<Rightarrow> bool" where
  "accepted r = (case r of ok x \<Rightarrow> True | nok \<Rightarrow> False)"

definition restOf :: "(tokenizeContext \<times> code list) result \<Rightarrow> code list" where
  "restOf r = (case r of ok (c, rest) \<Rightarrow> rest | nok \<Rightarrow> [])"

definition containerOf :: "definitionResult \<Rightarrow> containerState" where
  "containerOf r = (case r of ok (cs, c, rest) \<Rightarrow> cs | nok \<Rightarrow> emptyContainerState)"

text \<open>
  A definition goes on while the continuation tokenizer accepts the lines that follow
  its opening line. This is the container state after each of some lines in turn has
  continued the definition, each line tried in the context the host had at its start;
  there is none when one of the lines did not continue the definition, which ended there.
\<close>

fun continueLines ::
  "containerState \<Rightarrow> (tokenizeContext \<times> code list) list \<Rightarrow> containerState option" where
  "continueLines cs [] = Some cs"
| "continueLines cs ((c, input) # others) =
     (case tokenizeDefinitionContinuation cs c input of
        (cs', ok r) \<Rightarrow> continueLines cs' others
      | (cs', nok) \<Rightarrow> None)"

subsection \<open>The continuation of a definition, as the specification words it\<close>

text \<open>
  A definition is closed by blank lines when it opened on a blank line and a further
  blank line follows: its opening line was blank after the colon, and the lines \<open>prev\<close>
  since then, of which there is at least one, are all blank.
\<close>

definition closedByBlankLines :: "bool \<Rightarrow> code list list \<Rightarrow> bool" where
  "closedByBlankLines openedBlank prev =
     (openedBlank \<and> prev \<noteq> [] \<and> list_all isBlankLine prev)"

text \<open>
  Whether a line continues the definition, after the lines \<open>prev\<close> that continued it:
  a blank line always does; a line that is not blank does when it is indented by at least
  four markdown spaces and the definition is not closed by blank lines.
\<close>

definition continuesDefinition :: "bool \<Rightarrow> code list list \<Rightarrow> code list \<Rightarrow> bool" where
  "continuesDefinition openedBlank prev input =
     (isBlankLine input \<or> (4 \<le> indentOf input \<and> \<not> closedByBlankLines openedBlank prev))"

section \<open>The event resolvers\<close>

text \<open>
  \<^verbatim>\<open>resolveAllNote\<close>: the loop \<^verbatim>\<open>while (++index < events.length)\<close>. At an enter
  event whose token has the type \<^verbatim>\<open>inlineNoteStart\<close> the token's type is set to
  \<^verbatim>\<open>data\<close> and \<^verbatim>\<open>events.splice(index + 1, 4)\<close> removes the events after it.
\<close>

function resolveAllNote_loop ::
  "nat \<Rightarrow> (nat \<Rightarrow> token) \<Rightarrow> event list \<Rightarrow> (nat \<Rightarrow> token) \<times> event list" where
  "resolveAllNote_loop index st evs =
     (if index < length evs
      then
        (let t = snd (evs ! index)
         in if fst (evs ! index) = enter \<and> ttype (st t) = inlineNoteStart
            then resolveAllNote_loop (index + 1)
                   (st(t := (st t)\<lparr>ttype := data\<rparr>))
                   (Array_splice evs (int index + 1) 4 [])
            else resolveAllNote_loop (index + 1) st evs)
      else (st, evs))"
  by pat_completeness auto
termination
  by (relation "measure (\<lambda>(index, st, evs). length evs - index)")
     (auto simp: Array_splice_def Let_def min_def max_def)

declare resolveAllNote_loop.simps [simp del]

definition resolveAllNote ::
  "(nat \<Rightarrow> token) \<Rightarrow> event list \<Rightarrow> (nat \<Rightarrow> token) \<times> event list" where
  "resolveAllNote st evs = resolveAllNote_loop 0 st evs"

text \<open>
  The orphan cleanup as the specification words it: going through the events, every
  enter event of a token that is an inline note start at that moment has the token
  reinterpreted as data and the four events after it removed.
\<close>

fun orphanCleanup ::
  "(nat \<Rightarrow> token) \<Rightarrow> event list \<Rightarrow> (nat \<Rightarrow> token) \<times> event list" where
  "orphanCleanup st [] = (st, [])"
| "orphanCleanup st (e # es) =
     (if fst e = enter \<and> ttype (st (snd e)) = inlineNoteStart
      then (case orphanCleanup (st(snd e := (st (snd e))\<lparr>ttype := data\<rparr>)) (drop 4 es)
            of (st', es') \<Rightarrow> (st', e # es'))
      else (case orphanCleanup st es of (st', es') \<Rightarrow> (st', e # es')))"

text \<open>
  \<^verbatim>\<open>resolveToNoteEnd\<close>. The search \<^verbatim>\<open>while (index--)\<close> starts below
  \<^verbatim>\<open>events.length - 4\<close> and goes down to the first event; it stops at an enter event
  of an inline note start. With fewer than four events, or without such an event, the
  source reads a property of \<^verbatim>\<open>undefined\<close> and throws: the result is \<open>None\<close>.
\<close>

fun findOpening :: "(nat \<Rightarrow> token) \<Rightarrow> event list \<Rightarrow> nat \<Rightarrow> nat option" where
  "findOpening st evs 0 = None"
| "findOpening st evs (Suc index) =
     (if fst (evs ! index) = enter \<and> ttype (st (snd (evs ! index))) = inlineNoteStart
      then Some index
      else findOpening st evs index)"

text \<open>
  The two new tokens take the next two free addresses of the store. The resolvers of
  the constructs inside a span belong to the host, and are the parameter
  \<open>insideSpan\<close>; they work on the store, the next free address and the events.
\<close>

type_synonym resolveState = "(nat \<Rightarrow> token) \<times> nat \<times> event list"

definition resolveToNoteEnd ::
  "(resolveState \<Rightarrow> resolveState) \<Rightarrow> resolveState \<Rightarrow> resolveState option" where
  "resolveToNoteEnd insideSpan s =
     (case s of (st, fr, evs) \<Rightarrow>
        if length evs < 4 then None
        else
          (case findOpening st evs (length evs - 4) of
             None \<Rightarrow> None
           | Some openIndex \<Rightarrow>
               (let n = length evs;
                    group = \<lparr>ttype = inlineNote,
                             tstart = tstart (st (snd (evs ! openIndex))),
                             tend = tend (st (snd (evs ! (n - 1))))\<rparr>;
                    text = \<lparr>ttype = inlineNoteText,
                            tstart = tend (st (snd (evs ! (openIndex + 4)))),
                            tend = tstart (st (snd (evs ! (n - 3))))\<rparr>;
                    g = fr;
                    t = fr + 1;
                    st1 = st(g := group, t := text);
                    note = [(enter, g), evs ! (openIndex + 1), evs ! (openIndex + 2),
                            evs ! (openIndex + 3), evs ! (openIndex + 4), (enter, t)]
                in case insideSpan (st1, fr + 2, slice evs (openIndex + 6) (n - 4)) of
                     (st2, fr2, inner) \<Rightarrow>
                       (let note1 = splice note (int (length note)) 0 inner;
                            note2 = note1 @ [(exit, t), evs ! (n - 2), evs ! (n - 3), (exit, g)]
                        in Some (st2, fr2,
                                 splice evs (int openIndex) (int n - int openIndex) note2)))))"

text \<open>
  Two event lists the tokenizers produce. For \<^verbatim>\<open>^[a\<close>: the start tokenizer and
  one data token of the host for the text, with no end. For \<^verbatim>\<open>^[a]\<close>: the same,
  and then the end tokenizer.
\<close>

definition hostData :: "code \<Rightarrow> tokenizeContext \<Rightarrow> tokenizeContext" where
  "hostData code c = effects_exit data (effects_consume code (effects_enter data c))"

definition orphanNote :: tokenizeContext where
  "orphanNote = hostData 97 (contextOf (tokenizeNoteStart emptyContext (codes ''^[a'')))"

definition closedNote :: tokenizeContext where
  "closedNote = contextOf (tokenizeNoteEnd orphanNote (codes '']''))"

section \<open>The tree builder\<close>

text \<open>
  The nodes the handlers build. A footnote reference has an identifier and a label; a
  footnote definition has children as well. The absent and the empty string of the host
  language are both the empty list.
\<close>

record footnoteReferenceNode =
  "identifier" :: jsstring
  label :: jsstring

record 'n footnoteDefinitionNode = footnoteReferenceNode +
  children :: "'n list"

definition enterFootnoteDefinition :: "'n footnoteDefinitionNode" where
  "enterFootnoteDefinition = \<lparr>identifier = [], label = [], children = []\<rparr>"

definition enterFootnoteCall :: footnoteReferenceNode where
  "enterFootnoteCall = \<lparr>identifier = [], label = []\<rparr>"

text \<open>
  The exit handlers of the two label strings. The text the host buffered since the enter
  handler (\<^verbatim>\<open>this.resume()\<close>) is the argument \<open>resumed\<close>; the node is the one on top
  of the host's stack.
\<close>

definition exitFootnoteDefinitionLabelString ::
  "caseMapping \<Rightarrow> tokenizeContext \<Rightarrow> nat \<Rightarrow> jsstring \<Rightarrow> 'n footnoteDefinitionNode \<Rightarrow> 'n footnoteDefinitionNode" where
  "exitFootnoteDefinitionLabelString cm c token resumed node =
     node\<lparr>label := resumed,
          identifier := toLowerCase cm (normalizeIdentifier cm (sliceSerialize c token False))\<rparr>"

definition exitFootnoteCallString ::
  "caseMapping \<Rightarrow> tokenizeContext \<Rightarrow> nat \<Rightarrow> jsstring \<Rightarrow> footnoteReferenceNode \<Rightarrow> footnoteReferenceNode" where
  "exitFootnoteCallString cm c token resumed node =
     node\<lparr>label := resumed,
          identifier := toLowerCase cm (normalizeIdentifier cm (sliceSerialize c token False))\<rparr>"

text \<open>
  The context after the call \<^verbatim>\<open>[^a]\<close> has been tokenized with the identifier
  \<^verbatim>\<open>A\<close> defined; its label string is the token at address 3.
\<close>

definition callContext :: tokenizeContext where
  "callContext =
     contextOf (tokenizeFootnoteCall latin1 (emptyContext\<lparr>footnotes := [utf16 ''A'']\<rparr>)
       (codes ''[^a]''))"

section \<open>The serializer\<close>

subsection \<open>The position tracker\<close>

text \<open>
  \<^verbatim>\<open>value.split(/\r?\n|\r/g)\<close>: the pieces of a string between its line endings. A
  carriage return followed by a line feed is one line ending. The first argument is the
  piece read so far.
\<close>

fun splitEol_from :: "jsstring \<Rightarrow> jsstring \<Rightarrow> jsstring list" where
  "splitEol_from piece [] = [piece]"
| "splitEol_from piece [u] =
     (if u = 10 \<or> u = 13 then [piece, []] else [piece @ [u]])"
| "splitEol_from piece (u # v # us) =
     (if u = 13 \<and> v = 10 then piece # splitEol_from [] us
      else if u = 10 \<or> u = 13 then piece # splitEol_from [] (v # us)
      else splitEol_from (piece @ [u]) (v # us))"

definition splitEol :: "jsstring \<Rightarrow> jsstring list" where
  "splitEol value = splitEol_from [] value"

text \<open>
  The fields \<^verbatim>\<open>now.line\<close>, \<^verbatim>\<open>now.column\<close> and \<^verbatim>\<open>lineShift\<close> of the tracker
  and of the info it hands out. \<^verbatim>\<open>track\<close> takes 1 for a line or column that is
  absent or zero.
\<close>

record trackFields =
  line :: nat
  column :: nat
  lineShift :: nat

definition track :: "'a trackFields_scheme \<Rightarrow> trackFields" where
  "track config =
     \<lparr>line = (if line config = 0 then 1 else line config),
      column = (if column config = 0 then 1 else column config),
      lineShift = lineShift config\<rparr>"

definition shift :: "nat \<Rightarrow> trackFields \<Rightarrow> trackFields" where
  "shift value tracker = tracker\<lparr>lineShift := lineShift tracker + value\<rparr>"

text \<open>\<^verbatim>\<open>move\<close> returns its input and the tracker moved past it.\<close>

definition move :: "jsstring \<Rightarrow> trackFields \<Rightarrow> jsstring \<times> trackFields" where
  "move input tracker =
     (let chunks = splitEol input;
          tail = last chunks
      in (input,
          tracker\<lparr>line := line tracker + (length chunks - 1),
                  column := (if length chunks = 1 then column tracker + length tail
                             else 1 + length tail + lineShift tracker)\<rparr>))"

subsection \<open>The host of the serializer\<close>

text \<open>
  The configuration of \<^verbatim>\<open>safe\<close> and the info of a handler: the tracked position and
  the text before and after.
\<close>

record safeConfig = trackFields +
  before :: jsstring
  after :: jsstring

text \<open>What a join function of the host answers for two siblings.\<close>

datatype joinResult = joinTrue | joinFalse | joinNumber nat | joinNothing

text \<open>
  The serializer works inside a host, which is not part of the source and is a parameter
  of the model. The host gives: the handler for a child node, called with the stack of
  construct names and the info; its join functions; its escaper \<^verbatim>\<open>safe\<close>, which is
  determined by the host's table of unsafe patterns, called with the stack of construct
  names, the raw text and the configuration; the decoding of character escapes and
  character references in a string (\<^verbatim>\<open>decodeString\<close>); and, for parsing, the text it
  buffered for a label (\<^verbatim>\<open>this.resume()\<close>) and its parser for the lines of block content.
\<close>

record 'n host =
  handle :: "'n \<Rightarrow> string list \<Rightarrow> safeConfig \<Rightarrow> jsstring"
  join :: "('n \<Rightarrow> 'n \<Rightarrow> joinResult) list"
  safe :: "string list \<Rightarrow> jsstring \<Rightarrow> safeConfig \<Rightarrow> jsstring"
  decodeString :: "jsstring \<Rightarrow> jsstring"
  resume :: "jsstring \<Rightarrow> jsstring"
  parseFlow :: "code list list \<Rightarrow> 'n list"

subsection \<open>Joining block children\<close>

text \<open>
  \<^verbatim>\<open>between\<close> asks the join functions from the last to the first. The answers
  \<^verbatim>\<open>true\<close> and 1 end the search with one blank line, another number gives that many
  blank lines, \<^verbatim>\<open>false\<close> gives a comment between the two blocks.
\<close>

fun between_from :: "('n \<Rightarrow> 'n \<Rightarrow> joinResult) list \<Rightarrow> 'n \<Rightarrow> 'n \<Rightarrow> jsstring" where
  "between_from [] left right = [10, 10]"
| "between_from (j # js) left right =
     (case j left right of
        joinTrue \<Rightarrow> [10, 10]
      | joinNumber n \<Rightarrow> (if n = 1 then [10, 10] else replicate (1 + n) 10)
      | joinFalse \<Rightarrow> [10, 10] @ utf16 ''<!---->'' @ [10, 10]
      | joinNothing \<Rightarrow> between_from js left right)"

definition between :: "'n host \<Rightarrow> 'n \<Rightarrow> 'n \<Rightarrow> jsstring" where
  "between state left right = between_from (rev (join state)) left right"

fun containerFlow_loop ::
  "'n host \<Rightarrow> string list \<Rightarrow> trackFields \<Rightarrow> 'n list \<Rightarrow> jsstring list \<Rightarrow> jsstring list" where
  "containerFlow_loop state names tracker [] results = results"
| "containerFlow_loop state names tracker (child # rest) results =
     (case move (handle state child names
                   \<lparr>line = line tracker, column = column tracker,
                    lineShift = lineShift tracker, before = [10], after = [10]\<rparr>) tracker
      of (v, tracker1) \<Rightarrow>
        (case rest of
           [] \<Rightarrow> results @ [v]
         | next # others \<Rightarrow>
             (case move (between state child next) tracker1 of
                (b, tracker2) \<Rightarrow>
                  containerFlow_loop state names tracker2 rest (results @ [v, b]))))"

definition containerFlow ::
  "'n host \<Rightarrow> string list \<Rightarrow> 'a trackFields_scheme \<Rightarrow> 'n list \<Rightarrow> jsstring" where
  "containerFlow state names info children' =
     concat (containerFlow_loop state names (track info) children' [])"

subsection \<open>Indenting lines\<close>

text \<open>
  \<^verbatim>\<open>indentLines\<close>: the loop over the matches of the line ending expression. Each
  piece between two line endings goes through \<^verbatim>\<open>map\<close> with its line number and
  whether it is empty; the line endings are kept as they are.
\<close>

fun indentLines_loop ::
  "(jsstring \<Rightarrow> nat \<Rightarrow> bool \<Rightarrow> jsstring) \<Rightarrow> nat \<Rightarrow> jsstring \<Rightarrow> jsstring \<Rightarrow> jsstring list
     \<Rightarrow> jsstring list" where
  "indentLines_loop f n piece [] result = result @ [f piece n (piece = [])]"
| "indentLines_loop f n piece [u] result =
     (if u = 10 \<or> u = 13
      then result @ [f piece n (piece = []), [u], f [] (n + 1) True]
      else result @ [f (piece @ [u]) n False])"
| "indentLines_loop f n piece (u # v # us) result =
     (if u = 13 \<and> v = 10
      then indentLines_loop f (n + 1) [] us (result @ [f piece n (piece = []), [13, 10]])
      else if u = 10 \<or> u = 13
      then indentLines_loop f (n + 1) [] (v # us) (result @ [f piece n (piece = []), [u]])
      else indentLines_loop f n (piece @ [u]) (v # us) result)"

definition indentLines :: "jsstring \<Rightarrow> (jsstring \<Rightarrow> nat \<Rightarrow> bool \<Rightarrow> jsstring) \<Rightarrow> jsstring" where
  "indentLines value f = concat (indentLines_loop f 0 [] value [])"

subsection \<open>The handler of a footnote definition\<close>

text \<open>
  \<^verbatim>\<open>association\<close>: the label when there is one or when there is no identifier, and
  the decoded identifier otherwise.
\<close>

definition association :: "'n host \<Rightarrow> 'a footnoteReferenceNode_scheme \<Rightarrow> jsstring" where
  "association state node =
     (if label node \<noteq> [] \<or> identifier node = [] then label node
      else decodeString state (identifier node))"

text \<open>The inner function \<^verbatim>\<open>map\<close> of the handler.\<close>

definition footnoteDefinition_map :: "jsstring \<Rightarrow> nat \<Rightarrow> bool \<Rightarrow> jsstring" where
  "footnoteDefinition_map line' index blank =
     (if index \<noteq> 0 then (if blank then [] else utf16 ''    '') @ line' else line')"

text \<open>
  The handler \<^verbatim>\<open>footnoteDefinition\<close> of the serializer (the name alone is taken by
  the token type). \<^verbatim>\<open>context.enter\<close> pushes a construct name on the stack of the host
  and the function it returns pops it: the label is escaped inside
  \<^verbatim>\<open>footnoteDefinition\<close> and \<^verbatim>\<open>label\<close>, the children are joined inside
  \<^verbatim>\<open>footnoteDefinition\<close>.
\<close>

definition footnoteDefinitionHandler ::
  "'n host \<Rightarrow> string list \<Rightarrow> 'n footnoteDefinitionNode \<Rightarrow> 'a trackFields_scheme \<Rightarrow> jsstring" where
  "footnoteDefinitionHandler state names node safeOptions =
     (let tracker = track safeOptions;
          (v1, tracker1) = move (utf16 ''[^'') tracker;
          names1 = names @ [''footnoteDefinition''];
          names2 = names1 @ [''label''];
          (v2, tracker2) =
             move (safe state names2 (association state node)
                     \<lparr>line = line tracker1, column = column tracker1,
                      lineShift = lineShift tracker1, before = v1, after = utf16 '']''\<rparr>)
               tracker1;
          (v3, tracker3) =
             move (utf16 '']:'' @ (if children node \<noteq> [] then utf16 '' '' else [])) tracker2;
          tracker4 = shift 4 tracker3;
          (v4, tracker5) =
             move (indentLines (containerFlow state names1 tracker4 (children node))
                     footnoteDefinition_map) tracker4
      in v1 @ v2 @ v3 @ v4)"

subsection \<open>The serialized body, line by line\<close>

text \<open>
  What the handler is to do with the joined children, in words: the line endings of the
  text stay as they are, in order, and every line after the first is indented by four
  columns, except the empty lines, which are left empty. The specification says blank
  lines here; the source tests for the empty string, so a line that holds whitespace only
  is not exempt and is indented like any other line.
\<close>

fun eolsOf :: "jsstring \<Rightarrow> jsstring list" where
  "eolsOf [] = []"
| "eolsOf [u] = (if u = 10 \<or> u = 13 then [u] # [] else [])"
| "eolsOf (u # v # us) =
     (if u = 13 \<and> v = 10 then [13, 10] # eolsOf us
      else if u = 10 \<or> u = 13 then [u] # eolsOf (v # us)
      else eolsOf (v # us))"

fun weave :: "jsstring list \<Rightarrow> jsstring list \<Rightarrow> jsstring" where
  "weave [] seps = []"
| "weave [l] seps = l"
| "weave (l # ls) [] = l @ weave ls []"
| "weave (l # ls) (s # seps) = l @ s @ weave ls seps"

definition indentContinuation :: "jsstring \<Rightarrow> jsstring" where
  "indentContinuation value =
     (case splitEol value of
        [] \<Rightarrow> []
      | first # others \<Rightarrow>
          weave (first # map (\<lambda>l. if l = [] then [] else utf16 ''    '' @ l) others)
            (eolsOf value))"

section \<open>Parsing a definition\<close>

text \<open>
  Modelled from the spec: the host's document tokenizer and its compiler are not part of
  the source. By sections 4.1 and 4.3, the definition tokenizer is tried at the start of
  a block, the continuation tokenizer governs each later line of the same definition, and
  the definition ends at the first line it rejects; what each accepted line leaves after
  the prefix is the content of the definition. The exit handler of the label string is
  called for each token of that type that exits.
\<close>

fun splitLines_from :: "code list \<Rightarrow> code list \<Rightarrow> code list list" where
  "splitLines_from piece [] = [piece]"
| "splitLines_from piece (code # rest) =
     (if markdownLineEnding code then piece # splitLines_from [] rest
      else splitLines_from (piece @ [code]) rest)"

definition splitLines :: "code list \<Rightarrow> code list list" where
  "splitLines input = splitLines_from [] input"

fun continuationContent ::
  "containerState \<Rightarrow> tokenizeContext \<Rightarrow> code list list \<Rightarrow> code list list" where
  "continuationContent cs c [] = []"
| "continuationContent cs c (input # others) =
     (case tokenizeDefinitionContinuation cs c input of
        (cs', nok) \<Rightarrow> []
      | (cs', ok (c', rest)) \<Rightarrow> rest # continuationContent cs' c' others)"

definition definitionContent ::
  "containerState \<Rightarrow> tokenizeContext \<Rightarrow> code list \<Rightarrow> code list list" where
  "definitionContent cs c rest =
     (case splitLines rest of
        [] \<Rightarrow> []
      | first # others \<Rightarrow> first # continuationContent cs c others)"

definition tokensOfType :: "tokenType \<Rightarrow> tokenizeContext \<Rightarrow> nat list" where
  "tokensOfType type c =
     map snd (filter (\<lambda>e. fst e = exit \<and> ttype (store c (snd e)) = type) (events c))"

text \<open>
  Two invariants for counting the exits of label string tokens while a definition is
  tokenized. Every event holds a token that has been allocated in the store. The label
  string token \<open>t\<close> is such a token, and none of the open tokens \<open>ts\<close> around it is a
  label string.
\<close>

definition eventsAllocated :: "tokenizeContext \<Rightarrow> bool" where
  "eventsAllocated c = (\<forall>e\<in>set (events c). snd e < fresh c)"

definition labelStringOpen :: "tokenizeContext \<Rightarrow> nat \<Rightarrow> nat list \<Rightarrow> bool" where
  "labelStringOpen c t ts =
     (eventsAllocated c \<and> t < fresh c \<and> ttype (store c t) = footnoteDefinitionLabelString \<and>
      (\<forall>a\<in>set ts. a < fresh c \<and> ttype (store c a) \<noteq> footnoteDefinitionLabelString))"

definition definitionNodes :: "caseMapping \<Rightarrow> 'n host \<Rightarrow> tokenizeContext \<Rightarrow> 'n footnoteDefinitionNode list" where
  "definitionNodes cm state c =
     map (\<lambda>token. exitFootnoteDefinitionLabelString cm c token
                     (resume state (sliceSerialize c token False)) enterFootnoteDefinition)
       (tokensOfType footnoteDefinitionLabelString c)"

definition parseDefinition :: "caseMapping \<Rightarrow> 'n host \<Rightarrow> code list \<Rightarrow> 'n footnoteDefinitionNode option" where
  "parseDefinition cm state input =
     (case tokenizeDefinitionStart cm emptyContainerState emptyContext input of
        nok \<Rightarrow> None
      | ok (cs, c, rest) \<Rightarrow>
          (case definitionNodes cm state c of
             [node] \<Rightarrow> Some (node\<lparr>children := parseFlow state (definitionContent cs c rest)\<rparr>)
           | _ \<Rightarrow> None))"

text \<open>
  What the tokenizers alone make of a definition: the texts of its label string tokens
  and the lines of its content.
\<close>

definition scanDefinition :: "caseMapping \<Rightarrow> code list \<Rightarrow> (jsstring list \<times> code list list) option" where
  "scanDefinition cm input =
     (case tokenizeDefinitionStart cm emptyContainerState emptyContext input of
        nok \<Rightarrow> None
      | ok (cs, c, rest) \<Rightarrow>
          Some (map (\<lambda>token. sliceSerialize c token False)
                  (tokensOfType footnoteDefinitionLabelString c),
                definitionContent cs c rest))"

subsection \<open>A definition in its canonical form\<close>

text \<open>
  The codes of a text that has no tab and no carriage return: a line feed is the line
  ending code \<open>-4\<close>, and every other character is its own code.
\<close>

definition codesOfText :: "jsstring \<Rightarrow> code list" where
  "codesOfText s = map (\<lambda>u. if u = 10 then - 4 else int u) s"

text \<open>
  A plain line is a line of text that is not blank: it has no tab and no line ending, and
  a character other than the space. A text is free of line endings when it has neither a
  line feed nor a carriage return.
\<close>

definition plainLine :: "jsstring \<Rightarrow> bool" where
  "plainLine l = (list_all (\<lambda>u. u \<noteq> 9 \<and> u \<noteq> 10 \<and> u \<noteq> 13) l \<and> list_ex (\<lambda>u. u \<noteq> 32) l)"

definition eolFree :: "jsstring \<Rightarrow> bool" where
  "eolFree l = list_all (\<lambda>u. u \<noteq> 10 \<and> u \<noteq> 13) l"

text \<open>Lines joined by line feeds: the content of a definition as one text.\<close>

fun joinLines :: "jsstring list \<Rightarrow> jsstring" where
  "joinLines [] = []"
| "joinLines [l] = l"
| "joinLines (l # k # ls) = l @ 10 # joinLines (k # ls)"

text \<open>
  The text of a definition with the label \<open>lab\<close> whose content is the line
  \<open>first\<close> and then the lines \<open>others\<close>, as the serializer writes a definition:
  the first line of the content follows the colon and one space; every later line starts
  on a line of its own, indented by four spaces, and an empty line stays empty.
\<close>

definition definitionText :: "jsstring \<Rightarrow> jsstring \<Rightarrow> jsstring list \<Rightarrow> jsstring" where
  "definitionText lab first others =
     utf16 ''[^'' @ lab @ utf16 '']: '' @ first
     @ concat (map (\<lambda>l. 10 # (if l = [] then [] else utf16 ''    '' @ l)) others)"

subsection \<open>A host of plain paragraphs\<close>

text \<open>
  A small host for the examples: its only block is a paragraph of plain text, which it
  writes as it is; lines of content are paragraphs separated by blank lines; no text
  needs an escape and no label has a character escape or reference, so \<^verbatim>\<open>safe\<close>,
  \<^verbatim>\<open>decodeString\<close> and the buffered label text leave their argument as it is.
\<close>

datatype hostNode = paragraphNode jsstring

fun plainParagraphs :: "jsstring \<Rightarrow> code list list \<Rightarrow> hostNode list" where
  "plainParagraphs piece [] = (if piece = [] then [] else [paragraphNode piece])"
| "plainParagraphs piece (l # ls) =
     (if list_all markdownSpace l
      then (if piece = [] then plainParagraphs [] ls
            else paragraphNode piece # plainParagraphs [] ls)
      else plainParagraphs
             ((if piece = [] then [] else piece @ [10]) @ serializeChunks l False) ls)"

definition plainHost :: "hostNode host" where
  "plainHost =
     \<lparr>handle = (\<lambda>child names info. case child of paragraphNode t \<Rightarrow> t),
      join = [],
      safe = (\<lambda>names input config. input),
      decodeString = (\<lambda>value. value),
      resume = (\<lambda>raw. raw),
      parseFlow = plainParagraphs []\<rparr>"

section \<open>Properties of list splicing\<close>

text \<open>
  The chunked loop, started anywhere in the items, inserts the items that are left at the
  start index. The bound on the start index is needed only while a chunk is left: the
  last, shorter chunk moves the index past the end of the list, and the loop then stops.
\<close>

lemma splice_chunks_eq:
  "(chunkStart < length items \<Longrightarrow> 0 \<le> start \<and> start \<le> int (length list)) \<Longrightarrow>
   splice_chunks list chunkStart start items
     = take (nat start) list @ drop chunkStart items @ drop (nat start) list"
proof (induction list chunkStart start items rule: splice_chunks.induct)
  case (1 list chunkStart start items)
  show ?case
  proof (cases "chunkStart < length items")
    case False
    then show ?thesis by (subst splice_chunks.simps) simp
  next
    case True
    let ?chunk = "slice items chunkStart (chunkStart + 10000)"
    let ?list' = "Array_splice list start 0 ?chunk"
    from True "1.prems" have st: "0 \<le> start" "start \<le> int (length list)" by auto
    have l': "?list' = take (nat start) list @ ?chunk @ drop (nat start) list"
      using st by (simp add: Array_splice_def Let_def min_def max_def)
    have len: "length ?chunk = min 10000 (length items - chunkStart)"
      by (simp add: slice_def)
    have ih: "splice_chunks ?list' (chunkStart + 10000) (start + 10000) items
        = take (nat (start + 10000)) ?list' @ drop (chunkStart + 10000) items
          @ drop (nat (start + 10000)) ?list'"
    proof (rule "1.IH" [OF True])
      assume "chunkStart + 10000 < length items"
      then show "0 \<le> start + 10000 \<and> start + 10000 \<le> int (length ?list')"
        using st by (simp add: l' len)
    qed
    have chunk: "?chunk @ drop (chunkStart + 10000) items = drop chunkStart items"
      by (simp add: slice_def add.commute [of chunkStart] flip: drop_drop)
    show ?thesis
    proof (cases "chunkStart + 10000 < length items")
      case True
      then have full: "length ?chunk = 10000" by (simp add: len)
      have "nat (start + 10000) = nat start + 10000" using st by simp
      then have "take (nat (start + 10000)) ?list' = take (nat start) list @ ?chunk"
        and "drop (nat (start + 10000)) ?list' = drop (nat start) list"
        using st full by (simp_all add: l')
      then show ?thesis
        using \<open>chunkStart < length items\<close> ih chunk
        by (subst splice_chunks.simps) (simp)
    next
      case False
      then have "drop (chunkStart + 10000) items = []" by simp
      moreover have "take (nat (start + 10000)) ?list' @ drop (nat (start + 10000)) ?list' = ?list'"
        by simp
      ultimately have "splice_chunks ?list' (chunkStart + 10000) (start + 10000) items = ?list'"
        using ih by simp
      then show ?thesis
        using \<open>chunkStart < length items\<close> chunk \<open>drop (chunkStart + 10000) items = []\<close> l'
        by (subst splice_chunks.simps) (simp)
    qed
  qed
qed

lemma Array_splice_normalised:
  fixes list :: "'a list"
  defines "e \<equiv> int (length list)"
  shows "Array_splice list
           (if start < 0 then (if - start > e then 0 else e + start)
            else (if start > e then e else start))
           (if remove > 0 then remove else 0) items
         = Array_splice list start remove items"
proof -
  let ?s = "if start < 0 then (if - start > e then 0 else e + start)
            else (if start > e then e else start)"
  let ?r = "if remove > 0 then remove else 0"
  have s: "(if ?s < 0 then max (e + ?s) 0 else min ?s e)
         = (if start < 0 then max (e + start) 0 else min start e)"
    by (auto simp: e_def)
  have r: "max ?r 0 = max remove 0" by auto
  show ?thesis
    unfolding Array_splice_def Let_def e_def [symmetric] s r ..
qed

text \<open>
  Claim C10. For every list, every integer start index (negative and out of range
  included), every integer remove count (negative included) and every array of items,
  of fewer than 10000 items or of more (the chunked path), \<^verbatim>\<open>splice\<close> leaves the
  list as the native \<^verbatim>\<open>Array#splice(start, remove, ...items)\<close> would: the same
  elements in the same order.
\<close>

theorem splice_refines_Array_splice:
  "splice list start remove items = Array_splice list start remove items"
proof -
  define s where "s = (if start < 0 then (if - start > int (length list) then 0 else int (length list) + start)
                   else (if start > int (length list) then int (length list) else start))"
  define r where "r = (if remove > 0 then remove else 0)"
  define l1 where "l1 = (if r \<noteq> 0 then Array_splice list s r [] else list)"
  have norm: "Array_splice list s r items = Array_splice list start remove items"
    unfolding s_def r_def by (rule Array_splice_normalised)
  have s: "0 \<le> s" "s \<le> int (length list)" by (auto simp: s_def)
  have r: "0 \<le> r" by (simp add: r_def)
  show ?thesis
  proof (cases "length items < 10000")
    case True
    then have "splice list start remove items = Array_splice list s r items"
      by (simp add: splice_def Let_def s_def r_def)
    then show ?thesis by (simp add: norm)
  next
    case False
    have l1: "l1 = take (nat s) list @ drop (nat (s + min r (int (length list) - s))) list"
      using s r by (auto simp: l1_def Array_splice_def Let_def min_def max_def)
    have "splice list start remove items = splice_chunks l1 0 s items"
      using False by (simp add: splice_def Let_def s_def r_def l1_def)
    also have "\<dots> = take (nat s) l1 @ drop 0 items @ drop (nat s) l1"
      by (rule splice_chunks_eq) (use s in \<open>auto simp: l1\<close>)
    also have "\<dots> = Array_splice list s r items"
      using s r by (auto simp: l1 Array_splice_def Let_def min_def max_def)
    finally show ?thesis by (simp add: norm)
  qed
qed

section \<open>Properties of the event resolvers\<close>

text \<open>
  The cleanup only ever changes a type from inline note start to data, so a token that is
  an inline note start afterwards was one before.
\<close>

lemma orphanCleanup_type_kept:
  "orphanCleanup st es = (st', es') \<Longrightarrow> ttype (st' t) = inlineNoteStart
     \<Longrightarrow> ttype (st t) = inlineNoteStart"
proof (induction st es arbitrary: st' es' rule: orphanCleanup.induct)
  case (1 st)
  then show ?case by simp
next
  case (2 st e es)
  show ?case
  proof (cases "fst e = enter \<and> ttype (st (snd e)) = inlineNoteStart")
    case True
    let ?st1 = "st(snd e := (st (snd e))\<lparr>ttype := data\<rparr>)"
    obtain st2 es2 where r: "orphanCleanup ?st1 (drop 4 es) = (st2, es2)"
      by (cases "orphanCleanup ?st1 (drop 4 es)")
    with True "2.prems"(1) have "st' = st2" by simp
    with "2.IH"(1) [OF True r] "2.prems"(2) have "ttype (?st1 t) = inlineNoteStart" by simp
    then show ?thesis by (simp split: if_splits)
  next
    case False
    obtain st2 es2 where r: "orphanCleanup st es = (st2, es2)"
      by (cases "orphanCleanup st es")
    with False "2.prems"(1) have "st' = st2" by auto
    with "2.IH"(2) [OF False r] "2.prems"(2) show ?thesis by simp
  qed
qed

text \<open>No enter event of an inline note start is left by the cleanup.\<close>

lemma orphanCleanup_no_start:
  "orphanCleanup st es = (st', es') \<Longrightarrow> e \<in> set es'
     \<Longrightarrow> \<not> (fst e = enter \<and> ttype (st' (snd e)) = inlineNoteStart)"
proof (induction st es arbitrary: st' es' rule: orphanCleanup.induct)
  case (1 st)
  then show ?case by simp
next
  case (2 st x es)
  show ?case
  proof (cases "fst x = enter \<and> ttype (st (snd x)) = inlineNoteStart")
    case True
    let ?st1 = "st(snd x := (st (snd x))\<lparr>ttype := data\<rparr>)"
    obtain st2 es2 where r: "orphanCleanup ?st1 (drop 4 es) = (st2, es2)"
      by (cases "orphanCleanup ?st1 (drop 4 es)")
    with True "2.prems"(1) have eq: "st' = st2" "es' = x # es2" by auto
    show ?thesis
    proof (cases "e = x")
      case True
      have "ttype (?st1 (snd x)) \<noteq> inlineNoteStart" by simp
      with orphanCleanup_type_kept [OF r] have "ttype (st2 (snd x)) \<noteq> inlineNoteStart"
        by blast
      with True eq show ?thesis by simp
    next
      case False
      with "2.prems"(2) eq have "e \<in> set es2" by simp
      with "2.IH"(1) [OF True r] eq show ?thesis by simp
    qed
  next
    case False
    obtain st2 es2 where r: "orphanCleanup st es = (st2, es2)"
      by (cases "orphanCleanup st es")
    with False "2.prems"(1) have eq: "st' = st2" "es' = x # es2" by auto
    show ?thesis
    proof (cases "e = x")
      case True
      from False orphanCleanup_type_kept [OF r, of "snd x"]
      have "\<not> (fst x = enter \<and> ttype (st2 (snd x)) = inlineNoteStart)" by blast
      with True eq show ?thesis by simp
    next
      case ne: False
      with "2.prems"(2) eq have "e \<in> set es2" by simp
      with "2.IH"(2) [OF False r] eq show ?thesis by simp
    qed
  qed
qed

text \<open>
  The loop over indices, from any index on, does to the events from there what the
  cleanup does, and leaves the events before the index alone.
\<close>

lemma resolveAllNote_loop_eq:
  "index \<le> length evs \<Longrightarrow>
   resolveAllNote_loop index st evs =
     (case orphanCleanup st (drop index evs) of (st', es') \<Rightarrow> (st', take index evs @ es'))"
proof (induction index st evs rule: resolveAllNote_loop.induct)
  case (1 index st evs)
  show ?case
  proof (cases "index < length evs")
    case False
    with "1.prems" show ?thesis by (subst resolveAllNote_loop.simps) simp
  next
    case True
    then have d: "drop index evs = evs ! index # drop (Suc index) evs"
      by (simp add: Cons_nth_drop_Suc)
    let ?e = "evs ! index"
    show ?thesis
    proof (cases "fst ?e = enter \<and> ttype (st (snd ?e)) = inlineNoteStart")
      case hit: True
      let ?st1 = "st(snd ?e := (st (snd ?e))\<lparr>ttype := data\<rparr>)"
      let ?evs1 = "Array_splice evs (int index + 1) 4 []"
      have evs1: "?evs1 = take (Suc index) evs @ drop (index + 5) evs"
        using True by (auto simp: Array_splice_def Let_def min_def max_def nat_add_distrib add.commute)
      have len: "index + 1 \<le> length ?evs1" using True by (simp add: evs1)
      have "resolveAllNote_loop (index + 1) ?st1 ?evs1
          = (case orphanCleanup ?st1 (drop (index + 1) ?evs1) of
               (st', es') \<Rightarrow> (st', take (index + 1) ?evs1 @ es'))"
        by (rule "1.IH"(1) [OF True refl hit len])
      moreover have "drop (index + 1) ?evs1 = drop 4 (drop (Suc index) evs)"
        unfolding evs1 using True by (simp add: add.commute)
      moreover have "take (index + 1) ?evs1 = take index evs @ [?e]"
        using True by (simp add: evs1 take_Suc_conv_app_nth)
      ultimately show ?thesis
        using True hit
        by (subst resolveAllNote_loop.simps)
           (simp add: d Let_def split: prod.splits)
    next
      case miss: False
      have "resolveAllNote_loop (index + 1) st evs
          = (case orphanCleanup st (drop (index + 1) evs) of
               (st', es') \<Rightarrow> (st', take (index + 1) evs @ es'))"
        by (rule "1.IH"(2) [OF True refl miss]) (use True in simp)
      moreover have "take (index + 1) evs = take index evs @ [?e]"
        using True by (simp add: take_Suc_conv_app_nth)
      ultimately show ?thesis
        using True miss
        by (subst resolveAllNote_loop.simps)
           (auto simp add: d Let_def split: prod.splits)
    qed
  qed
qed

text \<open>
  Claim C7. After \<^verbatim>\<open>resolveAllNote\<close> has run over an event list, no enter event
  whose token has the type inline note start is left. The resolver does what the
  cleanup of the specification does: the token of every inline note start it meets has
  its type changed to data, and the four events that followed the enter event are
  removed from the list.
\<close>

theorem resolveAllNote_removes_orphans:
  "resolveAllNote st evs = orphanCleanup st evs \<and>
   (\<forall>e \<in> set (snd (resolveAllNote st evs)).
      \<not> (fst e = enter \<and> ttype (fst (resolveAllNote st evs) (snd e)) = inlineNoteStart))"
proof -
  have eq: "resolveAllNote st evs = orphanCleanup st evs"
    unfolding resolveAllNote_def using resolveAllNote_loop_eq [of 0 evs st]
    by (simp split: prod.splits)
  obtain st' es' where r: "orphanCleanup st evs = (st', es')"
    by (cases "orphanCleanup st evs")
  from orphanCleanup_no_start [OF r] eq r show ?thesis by simp
qed

theorem resolveAllNote_removes_orphans_witness:
  "snd (resolveAllNote (store orphanNote) (events orphanNote))
     = [(enter, 0), (exit, 0), (enter, 3), (exit, 3)] \<and>
   ttype (fst (resolveAllNote (store orphanNote) (events orphanNote)) 0) = data \<and>
   ttype (fst (resolveAllNote (store orphanNote) (events orphanNote)) 3) \<noteq> inlineNoteStart"
proof -
  note main = resolveAllNote_removes_orphans [of "store orphanNote" "events orphanNote"]
  from main have eq: "resolveAllNote (store orphanNote) (events orphanNote)
      = orphanCleanup (store orphanNote) (events orphanNote)"
    by (rule conjunct1)
  have evs: "snd (orphanCleanup (store orphanNote) (events orphanNote))
      = [(enter, 0), (exit, 0), (enter, 3), (exit, 3)]"
    by code_simp
  have ty: "ttype (fst (orphanCleanup (store orphanNote) (events orphanNote)) 0) = data"
    by code_simp
  have mem: "(enter, 3) \<in> set (snd (resolveAllNote (store orphanNote) (events orphanNote)))"
    by (simp only: eq evs) simp
  from main have "\<forall>e \<in> set (snd (resolveAllNote (store orphanNote) (events orphanNote))).
      \<not> (fst e = enter \<and>
         ttype (fst (resolveAllNote (store orphanNote) (events orphanNote)) (snd e))
           = inlineNoteStart)"
    by (rule conjunct2)
  from bspec [OF this mem]
  have "ttype (fst (resolveAllNote (store orphanNote) (events orphanNote)) 3)
      \<noteq> inlineNoteStart"
    by simp
  moreover have "snd (resolveAllNote (store orphanNote) (events orphanNote))
      = [(enter, 0), (exit, 0), (enter, 3), (exit, 3)]"
    by (simp only: eq evs)
  moreover have "ttype (fst (resolveAllNote (store orphanNote) (events orphanNote)) 0) = data"
    by (simp only: eq ty)
  ultimately show ?thesis by blast
qed

text \<open>
  Claim C8. The events that \<^verbatim>\<open>resolveToNoteEnd\<close> builds for the inline note
  \<^verbatim>\<open>^[a]\<close>: the group token (address 6) and the text token (address 7) bracket what
  they enclose, and the start markers (addresses 1 and 2) are entered before they are
  exited, but the exit event of the end marker (address 5) comes before its enter event.
\<close>

theorem resolveToNoteEnd_end_marker_exits_first:
  "(case resolveToNoteEnd (\<lambda>s. s) (store closedNote, fresh closedNote, events closedNote) of
      None \<Rightarrow> False
    | Some (st, fr, evs) \<Rightarrow>
        evs = [(enter, 6), (enter, 1), (exit, 1), (enter, 2), (exit, 2), (enter, 7),
               (enter, 3), (exit, 3), (exit, 7), (exit, 5), (enter, 5), (exit, 6)]
        \<and> ttype (st 5) = inlineNoteEndMarker \<and> ttype (st 6) = inlineNote
        \<and> ttype (st 7) = inlineNoteText)"
  by code_simp

section \<open>Properties of identifier normalisation\<close>

text \<open>
  The two regular expression replacements of \<^verbatim>\<open>normalizeIdentifier\<close> do what the
  specification says in words: the scan that replaces each longest run of whitespace
  collapses the runs, and the scan that removes a space at the start or at the end drops
  one leading and one trailing space.
\<close>

lemma collapseRuns_whitespace:
  "markdownWhitespace u \<Longrightarrow>
   collapseRuns (u # us) = 32 # collapseRuns (dropWhile markdownWhitespace us)"
  by (induction us arbitrary: u) auto

lemma collapseWhitespace_eq: "collapseWhitespace s = collapseRuns s"
proof (induction s rule: collapseWhitespace.induct)
  case 1
  then show ?case by simp
next
  case (2 u us)
  then show ?case
    by (cases us) (auto simp: collapseRuns_whitespace)
qed

lemma trimScan_inner:
  "trimScan False s = (if s = [] then [] else if last s = 32 then butlast s else s)"
  by (induction s) auto

lemma trimScan_eq: "trimScan True s = trimOne s"
  by (cases s) (auto simp: trimOne_def trimScan_inner)

lemma normalizeIdentifier_eq: "normalizeIdentifier cm s = foldIdentifier cm s"
  by (simp add: normalizeIdentifier_def foldIdentifier_def collapseWhitespace_eq trimScan_eq)

text \<open>
  Claim C3, as the source has it. When the label string token of a footnote definition
  or of a footnote call exits, the identifier of the node is the text of the token
  transformed by: collapse every run of markdown whitespace to one space, drop one
  leading and one trailing space, lower-case, upper-case, and then lower-case once more.
  The last step is the handler's own \<^verbatim>\<open>toLowerCase\<close> on the normalised identifier.
\<close>

theorem identifier_of_label_string:
  "identifier (exitFootnoteDefinitionLabelString cm c token resumed node)
     = toLowerCase cm (foldIdentifier cm (sliceSerialize c token False)) \<and>
   identifier (exitFootnoteCallString cm c token resumed' node')
     = toLowerCase cm (foldIdentifier cm (sliceSerialize c token False))"
  by (simp add: exitFootnoteDefinitionLabelString_def exitFootnoteCallString_def
      normalizeIdentifier_eq)

text \<open>
  The claim as it was stated ends the sequence with the upper-casing. For the call
  \<^verbatim>\<open>[^a]\<close> the identifier of the node is \<^verbatim>\<open>a\<close>, and the stated sequence gives
  \<^verbatim>\<open>A\<close>.
\<close>

theorem identifier_not_upper_case:
  "identifier (exitFootnoteCallString latin1 callContext 3 (utf16 ''a'') enterFootnoteCall) = utf16 ''a'' \<and>
   foldIdentifier latin1 (sliceSerialize callContext 3 False) = utf16 ''A'' \<and>
   identifier (exitFootnoteCallString latin1 callContext 3 (utf16 ''a'') enterFootnoteCall)
     \<noteq> foldIdentifier latin1 (sliceSerialize callContext 3 False)"
  by code_simp

subsection \<open>Labels that differ in casing and whitespace only\<close>

text \<open>
  The two replacements of \<^verbatim>\<open>normalizeIdentifier\<close> write the words of a text one
  space apart: the identifier does not see which whitespace separates the words, how much
  of it there is, or whether some stands before the first or after the last word.
\<close>

lemma wordsOf_whitespace: "wordsOf (dropWhile markdownWhitespace s) = wordsOf s"
  by (induction s) auto

lemma spaced_Cons: "ws \<noteq> [] \<Longrightarrow> spaced (w # ws) = w @ 32 # spaced ws"
  by (cases ws) simp_all

lemma not_whitespace_32: "\<not> markdownWhitespace u \<Longrightarrow> u \<noteq> 32"
  by (auto simp: markdownWhitespace_def)

lemma wordsOf_letters:
  "\<not> markdownWhitespace u \<Longrightarrow> us \<noteq> [] \<Longrightarrow> \<not> markdownWhitespace (hd us) \<Longrightarrow>
   wordsOf (u # us) = (u # hd (wordsOf us)) # tl (wordsOf us)"
  by (cases us) auto

lemma wordsOf_not_empty: "us \<noteq> [] \<Longrightarrow> \<not> markdownWhitespace (hd us) \<Longrightarrow> wordsOf us \<noteq> []"
  by (cases us) auto

lemma spaced_letter:
  "ws \<noteq> [] \<Longrightarrow> spaced ((u # hd ws) # tl ws) = u # spaced ws"
  by (cases ws rule: spaced.cases) simp_all

lemma trimScan_collapse_inner:
  "trimScan False (collapseWhitespace s)
     = (if s = [] then []
        else if markdownWhitespace (hd s)
        then (if wordsOf s = [] then [] else 32 # spaced (wordsOf s))
        else spaced (wordsOf s))"
proof (induction s rule: collapseWhitespace.induct)
  case 1
  then show ?case by simp
next
  case (2 u us)
  show ?case
  proof (cases "markdownWhitespace u")
    case True
    define s' where "s' = dropWhile markdownWhitespace us"
    have w: "wordsOf (u # us) = wordsOf s'"
      using True by (simp add: wordsOf_whitespace s'_def)
    have c: "collapseWhitespace (u # us) = 32 # collapseWhitespace s'"
      using True by (simp add: s'_def)
    have hd: "s' \<noteq> [] \<Longrightarrow> \<not> markdownWhitespace (hd s')"
      unfolding s'_def by (metis hd_dropWhile)
    show ?thesis
    proof (cases "s' = []")
      case e: True
      show ?thesis unfolding w c e using True by simp
    next
      case ne: False
      then have cne: "collapseWhitespace s' \<noteq> []" by (cases s') auto
      from ne hd have wne: "wordsOf s' \<noteq> []" by (simp add: wordsOf_not_empty)
      from "2.IH"(1) [OF True, folded s'_def] ne hd
      have "trimScan False (collapseWhitespace s') = spaced (wordsOf s')"
        by simp
      with True cne wne show ?thesis
        unfolding w c by simp
    qed
  next
    case False
    then have u: "u \<noteq> 32" by (rule not_whitespace_32)
    from False u have step: "trimScan False (collapseWhitespace (u # us))
        = u # trimScan False (collapseWhitespace us)"
      by simp
    show ?thesis
    proof (cases "us = []")
      case True
      with False u show ?thesis by simp
    next
      case ne: False
      show ?thesis
      proof (cases "markdownWhitespace (hd us)")
        case True
        with ne have tw: "takeWhile (\<lambda>v. \<not> markdownWhitespace v) us = []"
          "dropWhile (\<lambda>v. \<not> markdownWhitespace v) us = us"
          by (cases us; simp)+
        from False tw have w: "wordsOf (u # us) = [u] # wordsOf us" by simp
        from "2.IH"(2) [OF False] ne True
        show ?thesis
          unfolding step w using False by (cases "wordsOf us = []") (simp_all add: spaced_Cons)
      next
        case l: False
        from wordsOf_not_empty [OF ne l] have wne: "wordsOf us \<noteq> []" .
        from "2.IH"(2) [OF False] ne l
        show ?thesis
          unfolding step wordsOf_letters [OF False ne l] using False
          by (simp add: spaced_letter [OF wne])
      qed
    qed
  qed
qed

lemma trimScan_collapse_words:
  "trimScan True (collapseWhitespace s) = spaced (wordsOf s)"
proof (cases s)
  case Nil
  then show ?thesis by simp
next
  case (Cons u us)
  show ?thesis
  proof (cases "markdownWhitespace u")
    case True
    define s' where "s' = dropWhile markdownWhitespace us"
    have hd: "s' \<noteq> [] \<Longrightarrow> \<not> markdownWhitespace (hd s')"
      unfolding s'_def by (metis hd_dropWhile)
    have "trimScan True (collapseWhitespace s) = trimScan False (collapseWhitespace s')"
      using True by (simp add: Cons s'_def)
    also have "\<dots> = spaced (wordsOf s')"
    proof (cases "s' = []")
      case True
      then show ?thesis by simp
    next
      case False
      with hd show ?thesis by (simp add: trimScan_collapse_inner)
    qed
    also have "\<dots> = spaced (wordsOf s)"
      using True by (simp add: Cons wordsOf_whitespace s'_def)
    finally show ?thesis .
  next
    case False
    then have "u \<noteq> 32" by (rule not_whitespace_32)
    with False have "trimScan True (collapseWhitespace s) = trimScan False (collapseWhitespace s)"
      by (simp add: Cons)
    also have "\<dots> = spaced (wordsOf s)"
      unfolding trimScan_collapse_inner [of s] using False by (simp only: Cons list.sel if_False list.distinct)
    finally show ?thesis .
  qed
qed

lemma labelEquiv_normalizeIdentifier:
  assumes "labelEquiv cm a b"
  shows "normalizeIdentifier cm a = normalizeIdentifier cm b"
  using assms by (simp add: normalizeIdentifier_def labelEquiv_def trimScan_collapse_words)

subsection \<open>Blank lines\<close>

text \<open>The blank line tokenizer succeeds on the blank lines, and on no other line.\<close>

lemma space_not_lineEnding: "markdownSpace code \<Longrightarrow> \<not> markdownLineEnding code"
  by (auto simp: markdownSpace_def markdownLineEnding_def)

lemma factorySpace_prefix_unlimited:
  "snd (factorySpace_prefix type None sz c input) = dropWhile markdownSpace input"
  by (induction input arbitrary: sz c) auto

lemma tokenizeBlankLine_iff:
  "accepted (tokenizeBlankLine c input) = isBlankLine input"
proof (cases input)
  case Nil
  then show ?thesis by (simp add: accepted_def isBlankLine_def)
next
  case (Cons code rest)
  show ?thesis
  proof (cases "markdownSpace code")
    case False
    then show ?thesis
      by (auto simp: Cons accepted_def isBlankLine_def)
  next
    case True
    obtain c' r where fs: "factorySpace linePrefix None c input = (c', r)"
      by (cases "factorySpace linePrefix None c input")
    with True have r: "r = dropWhile markdownSpace input"
      using factorySpace_prefix_unlimited [of linePrefix 0 "effects_enter linePrefix c" input]
      by (simp add: Cons)
    have "isBlankLine input = (case r of [] \<Rightarrow> True | x # xs \<Rightarrow> markdownLineEnding x)"
      unfolding r isBlankLine_def
      by (induction input) (auto simp: space_not_lineEnding split: list.splits)
    moreover have "accepted (tokenizeBlankLine c input)
        = (case r of [] \<Rightarrow> True | x # xs \<Rightarrow> markdownLineEnding x)"
      using True fs by (cases r) (auto simp: Cons accepted_def simp del: factorySpace.simps)
    ultimately show ?thesis by simp
  qed
qed


section \<open>Properties of the tokenizers\<close>

subsection \<open>The call tokenizer on a label body\<close>

text \<open>
  Scanning a label body in \<^verbatim>\<open>callData\<close> consumes all of it and counts every code,
  unless the size passes 999 on the way.
\<close>

lemma callData_scan:
  "labelBody l \<Longrightarrow>
   callData cm sz dat c (l @ 93 # rest) =
     (if sz + length l > 999 then nok
      else callData cm (sz + length l) (dat \<or> hasData l) (c\<lparr>chunks := chunks c @ l\<rparr>) (93 # rest))"
proof (induction l arbitrary: sz dat c rule: labelBody.induct)
  case 1
  then show ?case by (simp add: hasData_def)
next
  case (2 code)
  then show ?case
    by (auto simp: hasData_def effects_consume_def Let_def)
next
  case (3 code nxt l)
  show ?case
  proof (cases "sz > 999")
    case True
    then show ?thesis by simp
  next
    case small: False
    show ?thesis
    proof (cases "code = 92")
      case False
      with "3.prems" have lb: "labelBody (nxt # l)" and c: "code \<noteq> 91" "code \<noteq> 93" by auto
      show ?thesis
        using small False c "3.IH"(3) [OF False lb, of "sz + 1"]
        by (auto simp: hasData_def effects_consume_def Let_def)
    next
      case bs: True
      show ?thesis
      proof (cases "nxt = 91 \<or> nxt = 92 \<or> nxt = 93")
        case True
        with bs "3.prems" have lb: "labelBody l" by simp
        show ?thesis
          using small bs True "3.IH"(1) [OF bs True lb, of "sz + 2"]
          by (auto simp: hasData_def effects_consume_def Let_def markdownLineEndingOrSpace_def)
      next
        case False
        with bs "3.prems" have lb: "labelBody (nxt # l)" by simp
        show ?thesis
          using small bs False "3.IH"(2) [OF bs False lb, of "sz + 1"]
          by (auto simp: hasData_def effects_consume_def Let_def markdownLineEndingOrSpace_def)
      qed
    qed
  qed
qed

lemma slice_append_middle:
  "slice (xs @ l @ sfx) (length xs) (length xs + length l) = l"
  by (simp add: slice_def)

text \<open>
  The whole call tokenizer on \<^verbatim>\<open>[^\<close>, a label body and the closing bracket: it fails
  when the label has more than 999 codes, has no data, or has an identifier that is not
  defined; otherwise it ends the call.
\<close>

lemma tokenizeFootnoteCall_label:
  assumes "labelBody l"
  shows "tokenizeFootnoteCall cm c (91 # 94 # l @ 93 # rest) =
     (if length l > 999 \<or> \<not> hasData l
         \<or> normalizeIdentifier cm (serializeChunks l False) \<notin> set (footnotes c)
      then nok
      else call_end
             (effects_exit footnoteCallString
               (effects_exit chunkString
                 ((effects_enter chunkString
                   (effects_enter footnoteCallString
                     (effects_exit footnoteCallMarker
                       (effects_consume 94
                         (effects_enter footnoteCallMarker
                           (effects_exit footnoteCallLabelMarker
                             (effects_consume 91
                               (effects_enter footnoteCallLabelMarker
                                 (effects_enter footnoteCall c)))))))))
                  \<lparr>chunks := chunks c @ 91 # 94 # l\<rparr>)))
             (93 # rest))"
proof -
  have sl: "slice (chunks c @ 91 # 94 # l) (Suc (Suc (length (chunks c))))
              (Suc (Suc (length (chunks c) + length l))) = l"
    using slice_append_middle [of "chunks c @ [91, 94]" l "[]"] by simp
  show ?thesis
    unfolding tokenizeFootnoteCall_def call_callStart_def
    by (simp add: callData_scan [OF assms] Let_def)
       (simp add: effects_enter_def effects_exit_def effects_consume_def exit_token_def
          sliceSerialize_def sl)
qed

text \<open>
  On any input: when \<^verbatim>\<open>callData\<close> or \<^verbatim>\<open>callEscape\<close> succeeds, the input was a
  label, the closing bracket and what is left, and the identifier of the text of the
  label string token was in the list of defined identifiers.
\<close>

lemma callData_ok_label:
  "callData cm sz dat c input = ok (c', rest) \<Longrightarrow> stack c = t1 # t2 # ts \<Longrightarrow>
     \<exists>l. input = l @ 93 # rest \<and>
         normalizeIdentifier cm
           (serializeChunks
              (slice (chunks c @ l) (tstart (store c t2)) (length (chunks c @ l))) False)
         \<in> set (footnotes c)"
  and callEscape_ok_label:
  "callEscape cm sz dat c input = ok (c', rest) \<Longrightarrow> stack c = t1 # t2 # ts \<Longrightarrow>
     \<exists>l. input = l @ 93 # rest \<and>
         normalizeIdentifier cm
           (serializeChunks
              (slice (chunks c @ l) (tstart (store c t2)) (length (chunks c @ l))) False)
         \<in> set (footnotes c)"
proof (induction cm sz dat c input and cm sz dat c input arbitrary: c' rest and c' rest
       rule: callData_callEscape.induct)
  case (1 cm sz dat c)
  then show ?case by simp
next
  case (2 cm sz dat c code input)
  from "2.prems"(1) have ok1: "code \<noteq> 91" "\<not> sz > 999"
    by (auto split: if_splits)
  show ?case
  proof (cases "code = 93")
    case True
    with "2.prems" ok1 have
      "normalizeIdentifier cm
         (serializeChunks (slice (chunks c) (tstart (store c t2)) (length (chunks c))) False)
       \<in> set (footnotes c)" and "rest = input"
      by (auto simp: Let_def call_end_def effects_exit_def effects_enter_def
          effects_consume_def exit_token_def sliceSerialize_def split: if_splits)
    with True show ?thesis by (intro exI [of _ "[]"]) simp
  next
    case n93: False
    let ?c1 = "effects_consume code c"
    let ?dat1 = "if \<not> markdownLineEndingOrSpace code then True else dat"
    have st: "stack ?c1 = t1 # t2 # ts" "store ?c1 = store c" "footnotes ?c1 = footnotes c"
      "chunks ?c1 = chunks c @ [code]"
      using "2.prems"(2) by (simp_all add: effects_consume_def)
    have "\<exists>l. input = l @ 93 # rest \<and>
         normalizeIdentifier cm
           (serializeChunks
              (slice (chunks ?c1 @ l) (tstart (store ?c1 t2)) (length (chunks ?c1 @ l))) False)
         \<in> set (footnotes ?c1)"
    proof (cases "code = 92")
      case True
      with "2.prems"(1) ok1 n93 have "callEscape cm (sz + 1) ?dat1 ?c1 input = ok (c', rest)"
        by (simp add: Let_def)
      from "2.IH"(1) [OF _ n93 refl refl True this st(1)] ok1 show ?thesis by simp
    next
      case False
      with "2.prems"(1) ok1 n93 have "callData cm (sz + 1) ?dat1 ?c1 input = ok (c', rest)"
        by (simp add: Let_def)
      from "2.IH"(2) [OF _ n93 refl refl False this st(1)] ok1 show ?thesis by simp
    qed
    then obtain l where "input = l @ 93 # rest"
      and "normalizeIdentifier cm
           (serializeChunks
              (slice (chunks c @ code # l) (tstart (store c t2)) (length (chunks c @ code # l)))
              False)
         \<in> set (footnotes c)"
      by (auto simp: st)
    then show ?thesis by (intro exI [of _ "code # l"]) simp
  qed
next
  case (3 cm sz dat c)
  then show ?case by simp
next
  case (4 cm sz dat c code input)
  show ?case
  proof (cases "code = 91 \<or> code = 92 \<or> code = 93")
    case True
    let ?c1 = "effects_consume code c"
    have st: "stack ?c1 = t1 # t2 # ts" "store ?c1 = store c" "footnotes ?c1 = footnotes c"
      "chunks ?c1 = chunks c @ [code]"
      using "4.prems"(2) by (simp_all add: effects_consume_def)
    from "4.prems"(1) True have "callData cm (sz + 1) dat ?c1 input = ok (c', rest)" by simp
    from "4.IH"(1) [OF True this st(1)]
    obtain l where "input = l @ 93 # rest"
      and "normalizeIdentifier cm
           (serializeChunks
              (slice (chunks c @ code # l) (tstart (store c t2)) (length (chunks c @ code # l)))
              False)
         \<in> set (footnotes c)"
      by (auto simp: st)
    then show ?thesis by (intro exI [of _ "code # l"]) simp
  next
    case False
    with "4.prems"(1) have "callData cm sz dat c (code # input) = ok (c', rest)" by simp
    from "4.IH"(2) [OF False this "4.prems"(2)] show ?thesis .
  qed
qed

subsection \<open>The definition tokenizer on a label body\<close>

text \<open>The effects keep the two invariants of the label states.\<close>

lemma labelOpen_enter:
  "labelOpen c t tk ts \<Longrightarrow> chunkOpen (effects_enter type c) t tk ts"
  by (auto simp: labelOpen_def chunkOpen_def effects_enter_def)

lemma chunkOpen_exit:
  "chunkOpen c t tk ts \<Longrightarrow> labelOpen (effects_exit type c) t tk ts"
  by (auto simp: labelOpen_def chunkOpen_def effects_exit_def)

lemma chunkOpen_consume:
  "chunkOpen c t tk ts \<Longrightarrow> chunkOpen (effects_consume code c) t tk ts"
  by (auto simp: chunkOpen_def effects_consume_def)

lemma labelOpen_lineEnding:
  "labelOpen c t tk ts \<Longrightarrow>
   labelOpen (effects_exit type (effects_consume code (effects_enter type' c))) t tk ts"
  by (auto simp: labelOpen_def effects_exit_def effects_enter_def effects_consume_def)

lemma effects_chunks [simp]:
  "chunks (effects_enter type c) = chunks c"
  "chunks (effects_exit type c) = chunks c"
  "chunks (effects_consume code c) = chunks c @ [code]"
  by (simp_all add: effects_enter_def effects_exit_def effects_consume_def split: list.splits)

lemma effects_footnotes [simp]:
  "footnotes (effects_enter type c) = footnotes c"
  "footnotes (effects_exit type c) = footnotes c"
  "footnotes (effects_consume code c) = footnotes c"
  by (simp_all add: effects_enter_def effects_exit_def effects_consume_def split: list.splits)

lemma effects_stack [simp]:
  "stack (effects_enter type c) = fresh c # stack c"
  "stack (effects_exit type c) = tl (stack c)"
  "stack (effects_consume code c) = stack c"
  by (simp_all add: effects_enter_def effects_exit_def effects_consume_def split: list.splits)

lemma effects_fresh [simp]:
  "fresh (effects_enter type c) = fresh c + 1"
  "fresh (effects_exit type c) = fresh c"
  "fresh (effects_consume code c) = fresh c"
  by (simp_all add: effects_enter_def effects_exit_def effects_consume_def split: list.splits)

lemma effects_store [simp]:
  "store (effects_enter type c) =
     (store c)(fresh c := \<lparr>ttype = type, tstart = length (chunks c), tend = length (chunks c)\<rparr>)"
  "stack c = t # ts \<Longrightarrow>
     store (effects_exit type c) = (store c)(t := (store c t)\<lparr>tend := length (chunks c)\<rparr>)"
  "store (effects_consume code c) = store c"
  by (simp_all add: effects_enter_def effects_exit_def effects_consume_def split: list.splits)

lemma effects_events [simp]:
  "events (effects_enter type c) = events c @ [(enter, fresh c)]"
  "stack c = t # ts \<Longrightarrow> events (effects_exit type c) = events c @ [(exit, t)]"
  "events (effects_consume code c) = events c"
  by (simp_all add: effects_enter_def effects_exit_def effects_consume_def)

lemma labelBody_Cons:
  "labelBody (code # tail) =
     (if code = 92
      then (\<exists>nxt tail'. tail = nxt # tail' \<and>
              (if nxt = 91 \<or> nxt = 92 \<or> nxt = 93 then labelBody tail' else labelBody tail))
      else code \<noteq> 91 \<and> code \<noteq> 93 \<and> labelBody tail)"
  by (cases tail) auto

lemma hasData_Cons:
  "hasData (code # l) = (\<not> markdownLineEndingOrSpace code \<or> hasData l)"
  by (simp add: hasData_def)

text \<open>
  Scanning a label body in the label states of the definition tokenizer, from inside a
  chunk and from a break, comes to the scan result.
\<close>

lemma scanResult_step:
  "scanResult cm cs rest t tk ts c1 sz1 dat1 l1 X \<Longrightarrow> sz1 + length l1 = sz + length l \<Longrightarrow>
   (dat1 \<or> hasData l1) = (dat \<or> hasData l) \<Longrightarrow> chunks c1 @ l1 = chunks c @ l \<Longrightarrow>
   footnotes c1 = footnotes c \<Longrightarrow> scanResult cm cs rest t tk ts c sz dat l X"
  by (auto simp: scanResult_def)

lemma definition_label_scan:
  "labelBody l \<Longrightarrow>
   (chunkOpen c t tk ts \<longrightarrow>
      scanResult cm cs rest t tk ts c sz dat l (definition_label cm cs sz dat c (l @ 93 # rest))) \<and>
   (labelOpen c t tk ts \<longrightarrow>
      scanResult cm cs rest t tk ts c sz dat l (atBreak cm cs sz dat c (l @ 93 # rest)))"
proof (induction l arbitrary: sz dat c rule: length_induct)
  case (1 l)
  note IH = "1.IH" [rule_format]
  show ?case
  proof (cases l)
    case Nil
    show ?thesis
    proof (intro conjI impI)
      assume "chunkOpen c t tk ts"
      then have "labelOpen (effects_exit chunkString c) t tk ts" by (rule chunkOpen_exit)
      then show "scanResult cm cs rest t tk ts c sz dat l
                   (definition_label cm cs sz dat c (l @ 93 # rest))"
        unfolding scanResult_def Nil
        by (auto simp: hasData_def intro!: exI [of _ "effects_exit chunkString c"])
    next
      assume "labelOpen c t tk ts"
      then show "scanResult cm cs rest t tk ts c sz dat l (atBreak cm cs sz dat c (l @ 93 # rest))"
        unfolding scanResult_def Nil
        by (auto simp: hasData_def intro!: exI [of _ c])
    qed
  next
    case (Cons code tail)
    have inChunk: "scanResult cm cs rest t tk ts c sz dat l
                     (definition_label cm cs sz dat c (l @ 93 # rest))"
      if opn: "chunkOpen c t tk ts" for c sz dat
    proof (cases "sz > 999")
      case True
      then show ?thesis by (simp add: scanResult_def Cons)
    next
      case small: False
      show ?thesis
      proof (cases "markdownLineEnding code")
        case True
        then have code: "code \<noteq> 91" "code \<noteq> 92" "code \<noteq> 93" "markdownLineEndingOrSpace code"
          by (auto simp: markdownLineEnding_def markdownLineEndingOrSpace_def)
        with "1.prems" Cons have lb: "labelBody tail" by (simp add: labelBody_Cons)
        let ?c1 = "effects_exit lineEnding (effects_consume code
                     (effects_enter lineEnding (effects_exit chunkString c)))"
        have "labelOpen ?c1 t tk ts"
          by (intro labelOpen_lineEnding chunkOpen_exit opn)
        with IH [of tail, OF _ lb] Cons
        have "scanResult cm cs rest t tk ts ?c1 (sz + 1) dat tail
                (atBreak cm cs (sz + 1) dat ?c1 (tail @ 93 # rest))" by simp
        moreover have eq: "definition_label cm cs sz dat c (l @ 93 # rest)
            = atBreak cm cs (sz + 1) dat ?c1 (tail @ 93 # rest)"
          using True code small by (simp add: Cons)
        ultimately show ?thesis
          unfolding eq by (elim scanResult_step) (simp_all add: Cons hasData_Cons code)
      next
        case nle: False
        show ?thesis
        proof (cases "code = 92")
          case False
          with "1.prems" Cons have lb: "labelBody tail" and code: "code \<noteq> 91" "code \<noteq> 93"
            by (simp_all add: labelBody_Cons)
          let ?c1 = "effects_consume code c"
          let ?dat1 = "if \<not> markdownLineEndingOrSpace code then True else dat"
          have "chunkOpen ?c1 t tk ts" by (intro chunkOpen_consume opn)
          with IH [of tail, OF _ lb] Cons
          have "scanResult cm cs rest t tk ts ?c1 (sz + 1) ?dat1 tail
                  (definition_label cm cs (sz + 1) ?dat1 ?c1 (tail @ 93 # rest))" by simp
          moreover have eq: "definition_label cm cs sz dat c (l @ 93 # rest)
              = definition_label cm cs (sz + 1) ?dat1 ?c1 (tail @ 93 # rest)"
            using False code small nle by (simp add: Cons Let_def)
          ultimately show ?thesis
            unfolding eq by (elim scanResult_step) (auto simp add: Cons hasData_Cons)
        next
          case bs: True
          with "1.prems" Cons obtain nxt tail' where tail: "tail = nxt # tail'"
            and lb: "if nxt = 91 \<or> nxt = 92 \<or> nxt = 93 then labelBody tail' else labelBody tail"
            by (auto simp: labelBody_Cons)
          let ?c1 = "effects_consume code c"
          have c1: "chunkOpen ?c1 t tk ts" by (intro chunkOpen_consume opn)
          have nws: "\<not> markdownLineEndingOrSpace code"
            using bs by (simp add: markdownLineEndingOrSpace_def)
          show ?thesis
          proof (cases "nxt = 91 \<or> nxt = 92 \<or> nxt = 93")
            case True
            with lb have lb': "labelBody tail'" by simp
            let ?c2 = "effects_consume nxt ?c1"
            have "chunkOpen ?c2 t tk ts" by (intro chunkOpen_consume c1)
            with IH [of tail', OF _ lb'] Cons tail
            have "scanResult cm cs rest t tk ts ?c2 (sz + 2) True tail'
                    (definition_label cm cs (sz + 2) True ?c2 (tail' @ 93 # rest))" by simp
            moreover have eq: "definition_label cm cs sz dat c (l @ 93 # rest)
                = definition_label cm cs (sz + 2) True ?c2 (tail' @ 93 # rest)"
              using True bs small nle nws by (auto simp add: Cons tail Let_def)
            ultimately show ?thesis
              unfolding eq by (elim scanResult_step) (auto simp add: Cons tail hasData_Cons nws)
          next
            case False
            with lb have lb': "labelBody tail" by simp
            with IH [of tail, OF _ lb'] Cons c1
            have "scanResult cm cs rest t tk ts ?c1 (sz + 1) True tail
                    (definition_label cm cs (sz + 1) True ?c1 (tail @ 93 # rest))" by simp
            moreover have eq: "definition_label cm cs sz dat c (l @ 93 # rest)
                = definition_label cm cs (sz + 1) True ?c1 (tail @ 93 # rest)"
              using False bs small nle nws by (auto simp add: Cons tail Let_def)
            ultimately show ?thesis
              unfolding eq by (elim scanResult_step) (auto simp add: Cons hasData_Cons nws)
          qed
        qed
      qed
    qed
    have atBr: "scanResult cm cs rest t tk ts c sz dat l (atBreak cm cs sz dat c (l @ 93 # rest))"
      if opn: "labelOpen c t tk ts"
    proof (cases "sz > 999")
      case True
      then show ?thesis by (simp add: scanResult_def Cons)
    next
      case small: False
      from "1.prems" Cons have code: "code \<noteq> 91" "code \<noteq> 93"
        by (auto simp: labelBody_Cons split: if_splits)
      show ?thesis
      proof (cases "markdownLineEnding code")
        case True
        then have code': "code \<noteq> 92" "markdownLineEndingOrSpace code"
          by (auto simp: markdownLineEnding_def markdownLineEndingOrSpace_def)
        with "1.prems" Cons have lb: "labelBody tail" by (simp add: labelBody_Cons)
        let ?c1 = "effects_exit lineEnding (effects_consume code (effects_enter lineEnding c))"
        have "labelOpen ?c1 t tk ts" by (intro labelOpen_lineEnding opn)
        with IH [of tail, OF _ lb] Cons
        have "scanResult cm cs rest t tk ts ?c1 (sz + 1) dat tail
                (atBreak cm cs (sz + 1) dat ?c1 (tail @ 93 # rest))" by simp
        moreover have eq: "atBreak cm cs sz dat c (l @ 93 # rest)
            = atBreak cm cs (sz + 1) dat ?c1 (tail @ 93 # rest)"
          using True code small by (simp add: Cons)
        ultimately show ?thesis
          unfolding eq by (elim scanResult_step) (simp_all add: Cons hasData_Cons code')
      next
        case False
        let ?c1 = "effects_enter chunkString c"
        have "chunkOpen ?c1 t tk ts" by (intro labelOpen_enter opn)
        from inChunk [OF this, of sz dat]
        have "scanResult cm cs rest t tk ts ?c1 sz dat l
                (definition_label cm cs sz dat ?c1 (l @ 93 # rest))" .
        moreover have eq: "atBreak cm cs sz dat c (l @ 93 # rest)
            = definition_label cm cs sz dat ?c1 (l @ 93 # rest)"
          using False code small by (simp add: Cons)
        ultimately show ?thesis
          unfolding eq by (elim scanResult_step) simp_all
      qed
    qed
    from inChunk atBr show ?thesis by blast
  qed
qed

text \<open>What follows the closing bracket of the label: the colon and the optional space.\<close>

lemma definition_done_props:
  "\<exists>c'. definition_done ident cs c input = ok (cs, c', input) \<and>
        set (footnotes c') = insert ident (set (footnotes c)) \<and>
        store c' = store c \<and> chunks c' = chunks c"
  by (auto simp: definition_done_def)


lemma definition_nonBlank_props:
  assumes "t < fresh c"
  shows "\<exists>c'. definition_nonBlank ident cs c input
          = ok (cs, c', case input of [] \<Rightarrow> []
                        | code # rest \<Rightarrow> if markdownSpace code then rest else input) \<and>
        set (footnotes c') = insert ident (set (footnotes c)) \<and>
        store c' t = store c t \<and> (\<exists>sfx. chunks c' = chunks c @ sfx)"
proof (cases input)
  case Nil
  from definition_done_props [of ident cs c "[]"] show ?thesis
    by (auto simp: definition_nonBlank_def Nil)
next
  case (Cons code rest2)
  let ?c2 = "effects_exit footnoteDefinitionWhitespace
               (effects_consume code (effects_enter footnoteDefinitionWhitespace c))"
  have c2: "store ?c2 t = store c t" "footnotes ?c2 = footnotes c"
    "chunks ?c2 = chunks c @ [code]"
    using assms by auto
  from definition_done_props [of ident cs c input]
    definition_done_props [of ident cs ?c2 rest2] assms
  show ?thesis
    by (cases "markdownSpace code") (auto simp: definition_nonBlank_def c2 Cons)
qed

lemma labelAfter_props:
  assumes "t < fresh c"
  shows "\<exists>c'. labelAfter ident cs c (58 # rest)
          = ok ((if isBlankLine rest then cs\<lparr>initialBlankLine := True\<rparr> else cs), c',
                (if isBlankLine rest then rest
                 else case rest of [] \<Rightarrow> []
                      | code # rest2 \<Rightarrow> if markdownSpace code then rest2 else rest)) \<and>
        set (footnotes c') = insert ident (set (footnotes c)) \<and>
        store c' t = store c t \<and> (\<exists>sfx. chunks c' = chunks c @ sfx)"
proof -
  let ?c1 = "effects_exit definitionMarker (effects_consume 58 (effects_enter definitionMarker c))"
  have c1: "store ?c1 t = store c t" "footnotes ?c1 = footnotes c"
    "chunks ?c1 = chunks c @ [58]" "t < fresh ?c1"
    using assms by auto
  show ?thesis
  proof (cases "tokenizeBlankLine ?c1 rest")
    case (ok r)
    then have b: "isBlankLine rest"
      using tokenizeBlankLine_iff [of ?c1 rest] by (simp add: accepted_def)
    from definition_done_props [of ident "cs\<lparr>initialBlankLine := True\<rparr>" ?c1 rest] assms
    show ?thesis
      by (auto simp: labelAfter_def Let_def ok definition_onBlank_def c1 b)
  next
    case nok
    then have b: "\<not> isBlankLine rest"
      using tokenizeBlankLine_iff [of ?c1 rest] by (simp add: accepted_def)
    from definition_nonBlank_props [OF c1(4), of ident cs rest] assms
    show ?thesis
      by (auto simp: labelAfter_def Let_def nok c1 b)
  qed
qed

lemma tokenizeDefinitionStart_label:
  assumes lb: "labelBody l"
  shows "if length l > 999 \<or> \<not> hasData l
         then tokenizeDefinitionStart cm cs c (91 # 94 # l @ 93 # 58 # rest) = nok
         else (\<exists>c'.
                 tokenizeDefinitionStart cm cs c (91 # 94 # l @ 93 # 58 # rest)
                   = ok ((if isBlankLine rest then cs\<lparr>initialBlankLine := True\<rparr> else cs), c',
                         (if isBlankLine rest then rest
                          else case rest of [] \<Rightarrow> []
                               | code # rest2 \<Rightarrow> if markdownSpace code then rest2 else rest))
                 \<and> set (footnotes c')
                     = insert (normalizeIdentifier cm (serializeChunks l False)) (set (footnotes c))
                 \<and> ttype (store c' (fresh c + 4)) = footnoteDefinitionLabelString
                 \<and> sliceSerialize c' (fresh c + 4) False = serializeChunks l False)"
proof -
  let ?c0 = "effects_enter footnoteDefinitionLabelString
               (effects_exit footnoteDefinitionMarker
                 (effects_consume 94
                   (effects_enter footnoteDefinitionMarker
                     (effects_exit footnoteDefinitionLabelMarker
                       (effects_consume 91
                         (effects_enter footnoteDefinitionLabelMarker
                           (effects_enter footnoteDefinitionLabel
                             (effects_enter footnoteDefinition c))))))))"
  let ?t = "fresh c + 4"
  let ?p = "length (chunks c) + 2"
  let ?tk = "\<lparr>ttype = footnoteDefinitionLabelString, tstart = ?p, tend = ?p\<rparr>"
  let ?ts = "[fresh c + 1, fresh c] @ stack c"
  let ?X = "atBreak cm cs 0 False ?c0 (l @ 93 # 58 # rest)"
  have start: "tokenizeDefinitionStart cm cs c (91 # 94 # l @ 93 # 58 # rest) = ?X"
    by (simp add: tokenizeDefinitionStart_def labelStart_def)
  have c0: "labelOpen ?c0 ?t ?tk ?ts" "chunks ?c0 = chunks c @ [91, 94]"
    "footnotes ?c0 = footnotes c"
    by (simp_all add: labelOpen_def)
  from definition_label_scan [OF lb, of ?c0 ?t ?tk ?ts cm cs "58 # rest" 0 False] c0(1)
  have scan: "scanResult cm cs (58 # rest) ?t ?tk ?ts ?c0 0 False l ?X" by simp
  show ?thesis
  proof (cases "length l > 999")
    case True
    with scan show ?thesis by (simp add: scanResult_def start)
  next
    case False
    with scan obtain c1 where X: "?X = atBreak cm cs (length l) (hasData l) c1 (93 # 58 # rest)"
      and c1: "labelOpen c1 ?t ?tk ?ts" "chunks c1 = chunks ?c0 @ l" "footnotes c1 = footnotes ?c0"
      by (auto simp: scanResult_def)
    show ?thesis
    proof (cases "hasData l")
      case False
      then show ?thesis using \<open>\<not> length l > 999\<close> by (simp add: start X)
    next
      case True
      let ?c2 = "effects_exit footnoteDefinitionLabelString c1"
      let ?ident = "normalizeIdentifier cm (sliceSerialize ?c2 (exit_token c1) False)"
      let ?c3 = "effects_exit footnoteDefinitionLabel
                   (effects_exit footnoteDefinitionLabelMarker
                     (effects_consume 93 (effects_enter footnoteDefinitionLabelMarker ?c2)))"
      from c1(1) have st1: "stack c1 = ?t # ?ts" "?t < fresh c1" "store c1 ?t = ?tk"
        by (simp_all add: labelOpen_def)
      from st1 have tok: "exit_token c1 = ?t" by (simp add: exit_token_def)
      have sl: "slice (chunks c @ 91 # 94 # l @ sfx) (Suc (Suc (length (chunks c))))
              (Suc (Suc (length (chunks c) + length l))) = l" for sfx
        using slice_append_middle [of "chunks c @ [91, 94]" l sfx] by simp
      have c2: "store ?c2 ?t = ?tk\<lparr>tend := ?p + length l\<rparr>"
        "chunks ?c2 = chunks c @ 91 # 94 # l" "footnotes ?c2 = footnotes c"
        using st1 c1(2,3) by (simp_all add: effects_store(2) [OF st1(1)] c0)
      then have ident: "?ident = normalizeIdentifier cm (serializeChunks l False)"
        using sl [of "[]"] by (simp add: tok sliceSerialize_def)
      have c3: "store ?c3 ?t = ?tk\<lparr>tend := ?p + length l\<rparr>"
        "chunks ?c3 = chunks c @ 91 # 94 # l @ [93]" "footnotes ?c3 = footnotes c"
        "?t < fresh ?c3"
        using st1 c1(2,3) c2 by (simp_all add: effects_store(2) [OF st1(1)] c0)
      have X2: "?X = labelAfter ?ident cs ?c3 (58 # rest)"
        using True \<open>\<not> length l > 999\<close> by (simp add: X Let_def)
      from labelAfter_props [OF c3(4), of ?ident cs rest]
      obtain c' sfx
        where r: "labelAfter ?ident cs ?c3 (58 # rest)
            = ok ((if isBlankLine rest then cs\<lparr>initialBlankLine := True\<rparr> else cs), c',
                  (if isBlankLine rest then rest
                   else case rest of [] \<Rightarrow> []
                        | code # rest2 \<Rightarrow> if markdownSpace code then rest2 else rest))"
        and c': "set (footnotes c') = insert ?ident (set (footnotes ?c3))"
          "store c' ?t = store ?c3 ?t" "chunks c' = chunks ?c3 @ sfx"
        by blast
      have "sliceSerialize c' ?t False = serializeChunks l False"
        using sl [of "93 # sfx"] by (simp add: sliceSerialize_def c' c3 c1(2) c0(2))
      with r c' show ?thesis
        using True \<open>\<not> length l > 999\<close> by (simp add: start X2 ident c3 c1(3) c0(3))
    qed
  qed
qed

subsection \<open>Acceptance of calls and definitions\<close>

lemma tokenizeFootnoteCall_accepts:
  assumes "labelBody l" "length l \<le> 999" "hasData l"
    and "normalizeIdentifier cm (serializeChunks l False) \<in> set (footnotes c)"
  shows "\<exists>c'. tokenizeFootnoteCall cm c (91 # 94 # l @ 93 # rest) = ok (c', rest)
           \<and> footnotes c' = footnotes c
           \<and> ttype (store c' (fresh c + 3)) = footnoteCallString
           \<and> sliceSerialize c' (fresh c + 3) False = serializeChunks l False"
proof -
  have sl: "slice (chunks c @ 91 # 94 # l @ [93]) (Suc (Suc (length (chunks c))))
              (Suc (Suc (length (chunks c) + length l))) = l"
    using slice_append_middle [of "chunks c @ [91, 94]" l "[93]"] by simp
  show ?thesis
    using assms
    by (simp add: tokenizeFootnoteCall_label call_end_def sliceSerialize_def sl)
qed

lemma labelBody_plain:
  "list_all (\<lambda>code. code \<noteq> 91 \<and> code \<noteq> 92 \<and> code \<noteq> 93) l \<Longrightarrow> labelBody l"
  by (induction l rule: labelBody.induct) auto

text \<open>
  Claim C1. The call tokenizer accepts a candidate \<^verbatim>\<open>[^id]\<close> only if the normalised
  identifier of the label is in the list of known footnote identifiers of the parse at
  the moment the call is tokenized: whenever it succeeds, the input was a caret, a label,
  the closing bracket and the rest, and the identifier of the label is in that list.
  Otherwise it fails: a label body whose identifier is not in the list gives
  \<^verbatim>\<open>nok\<close>, the signal on which the host falls back to literal text.
\<close>

theorem footnoteCall_needs_definition:
  "(tokenizeFootnoteCall cm c (code # input) = ok (c', rest) \<longrightarrow>
      (\<exists>l. input = 94 # l @ 93 # rest \<and>
           normalizeIdentifier cm (serializeChunks l False) \<in> set (footnotes c))) \<and>
   (labelBody l \<and> normalizeIdentifier cm (serializeChunks l False) \<notin> set (footnotes c) \<longrightarrow>
      tokenizeFootnoteCall cm c (91 # 94 # l @ 93 # rest') = nok)"
proof (intro conjI impI)
  assume r: "tokenizeFootnoteCall cm c (code # input) = ok (c', rest)"
  let ?c0 = "effects_exit footnoteCallLabelMarker
              (effects_consume code
                (effects_enter footnoteCallLabelMarker (effects_enter footnoteCall c)))"
  from r obtain input' where input: "input = 94 # input'"
    by (cases input) (auto simp: tokenizeFootnoteCall_def call_callStart_def split: if_splits)
  let ?c1 = "effects_enter chunkString
               (effects_enter footnoteCallString
                 (effects_exit footnoteCallMarker
                   (effects_consume 94 (effects_enter footnoteCallMarker ?c0))))"
  from r have d: "callData cm 0 False ?c1 input' = ok (c', rest)"
    by (simp add: tokenizeFootnoteCall_def call_callStart_def input)
  have st: "stack ?c1 = (fresh c + 4) # (fresh c + 3) # fresh c # stack c"
    by simp
  from callData_ok_label [OF d st] obtain l where l: "input' = l @ 93 # rest"
    and m: "normalizeIdentifier cm
           (serializeChunks
              (slice (chunks ?c1 @ l) (tstart (store ?c1 (fresh c + 3)))
                 (length (chunks ?c1 @ l))) False)
         \<in> set (footnotes ?c1)"
    by blast
  have "slice (chunks ?c1 @ l) (tstart (store ?c1 (fresh c + 3))) (length (chunks ?c1 @ l)) = l"
    using slice_append_middle [of "chunks c @ [code, 94]" l "[]"] by simp
  with m have "normalizeIdentifier cm (serializeChunks l False) \<in> set (footnotes c)" by simp
  with l input
  show "\<exists>l. input = 94 # l @ 93 # rest \<and>
           normalizeIdentifier cm (serializeChunks l False) \<in> set (footnotes c)"
    by blast
next
  assume "labelBody l \<and> normalizeIdentifier cm (serializeChunks l False) \<notin> set (footnotes c)"
  then show "tokenizeFootnoteCall cm c (91 # 94 # l @ 93 # rest') = nok"
    by (simp add: tokenizeFootnoteCall_label)
qed

theorem footnoteCall_needs_definition_witness:
  "tokenizeFootnoteCall latin1 (emptyContext\<lparr>footnotes := [utf16 ''A'']\<rparr>) (codes ''[^a] x'')
     = ok (contextOf (tokenizeFootnoteCall latin1 (emptyContext\<lparr>footnotes := [utf16 ''A'']\<rparr>)
             (codes ''[^a] x'')), codes '' x'') \<and>
   (\<exists>l. codes ''^a] x'' = 94 # l @ 93 # codes '' x'' \<and>
        normalizeIdentifier latin1 (serializeChunks l False)
          \<in> set (footnotes (emptyContext\<lparr>footnotes := [utf16 ''A'']\<rparr>))) \<and>
   labelBody (codes ''a'') \<and>
   normalizeIdentifier latin1 (serializeChunks (codes ''a'') False) \<notin> set (footnotes emptyContext) \<and>
   tokenizeFootnoteCall latin1 emptyContext (codes ''[^a] x'') = nok"
proof -
  let ?c = "emptyContext\<lparr>footnotes := [utf16 ''A'']\<rparr>"
  have in1: "codes ''[^a] x'' = 91 # 94 # codes ''a'' @ 93 # codes '' x''"
    and in2: "codes ''[^a] x'' = 91 # codes ''^a] x''"
    by (simp_all add: codes_def)
  have lb: "labelBody (codes ''a'')" "length (codes ''a'') \<le> 999" "hasData (codes ''a'')"
    by (simp_all add: codes_def hasData_def markdownLineEndingOrSpace_def)
  have idA: "normalizeIdentifier latin1 (serializeChunks (codes ''a'') False) = utf16 ''A''"
    by code_simp
  then have mem: "normalizeIdentifier latin1 (serializeChunks (codes ''a'') False) \<in> set (footnotes ?c)"
    by simp
  from tokenizeFootnoteCall_accepts [OF lb mem, of "codes '' x''"]
  obtain c' where r: "tokenizeFootnoteCall latin1 ?c (codes ''[^a] x'') = ok (c', codes '' x'')"
    by (auto simp: in1)
  then have h: "tokenizeFootnoteCall latin1 ?c (91 # codes ''^a] x'')
      = ok (contextOf (tokenizeFootnoteCall latin1 ?c (codes ''[^a] x'')), codes '' x'')"
    by (simp add: contextOf_def in2)
  have nm: "normalizeIdentifier latin1 (serializeChunks (codes ''a'') False) \<notin> set (footnotes emptyContext)"
    by (simp add: emptyContext_def)
  from footnoteCall_needs_definition
         [of latin1 ?c 91 "codes ''^a] x''" "contextOf (tokenizeFootnoteCall latin1 ?c (codes ''[^a] x''))"
             "codes '' x''" "codes ''a''" "codes '' x''"] h
  have 1: "\<exists>l. codes ''^a] x'' = 94 # l @ 93 # codes '' x'' \<and>
        normalizeIdentifier latin1 (serializeChunks l False) \<in> set (footnotes ?c)"
    by blast
  from footnoteCall_needs_definition
         [of latin1 emptyContext 91 "[]" emptyContext "[]" "codes ''a''" "codes '' x''"] lb(1) nm
  have 2: "tokenizeFootnoteCall latin1 emptyContext (codes ''[^a] x'') = nok"
    by (simp add: in1)
  from h 1 2 lb(1) nm show ?thesis by (simp add: in2)
qed

text \<open>
  Claim C5, as the source has it. Both tokenizers test \<^verbatim>\<open>size > 999\<close>, and test
  it once more at the closing bracket. A label body of up to 999 codes, one of them not
  whitespace, is accepted: by the call tokenizer when its identifier is defined, by the
  definition tokenizer when a colon follows. A label of 1000 codes or more is rejected.
\<close>

theorem label_size_limit:
  assumes "labelBody l" and "hasData l"
    and "normalizeIdentifier cm (serializeChunks l False) \<in> set (footnotes c)"
  shows "(length l \<le> 999 \<longrightarrow>
            (\<exists>c'. tokenizeFootnoteCall cm c (91 # 94 # l @ 93 # rest) = ok (c', rest)) \<and>
            (\<exists>cs' d' rest'.
               tokenizeDefinitionStart cm cs d (91 # 94 # l @ 93 # 58 # rest) = ok (cs', d', rest'))) \<and>
         (length l \<ge> 1000 \<longrightarrow>
            tokenizeFootnoteCall cm c (91 # 94 # l @ 93 # rest) = nok \<and>
            tokenizeDefinitionStart cm cs d (91 # 94 # l @ 93 # 58 # rest) = nok)"
proof (intro conjI impI)
  assume "length l \<le> 999"
  with tokenizeFootnoteCall_accepts [OF assms(1) this assms(2,3), of rest]
  show "\<exists>c'. tokenizeFootnoteCall cm c (91 # 94 # l @ 93 # rest) = ok (c', rest)" by blast
next
  assume "length l \<le> 999"
  with tokenizeDefinitionStart_label [OF assms(1), of cm cs d rest] assms(2)
  show "\<exists>cs' d' rest'.
          tokenizeDefinitionStart cm cs d (91 # 94 # l @ 93 # 58 # rest) = ok (cs', d', rest')"
    by (auto split: if_splits)
next
  assume "length l \<ge> 1000"
  then show "tokenizeFootnoteCall cm c (91 # 94 # l @ 93 # rest) = nok"
    by (simp add: tokenizeFootnoteCall_label [OF assms(1)])
next
  assume "length l \<ge> 1000"
  with tokenizeDefinitionStart_label [OF assms(1), of cm cs d rest]
  show "tokenizeDefinitionStart cm cs d (91 # 94 # l @ 93 # 58 # rest) = nok"
    by (simp split: if_splits)
qed

theorem label_size_limit_witness:
  "labelBody (replicate 999 97) \<and> hasData (replicate 999 97) \<and>
   (\<exists>c'. tokenizeFootnoteCall latin1
           (emptyContext\<lparr>footnotes :=
              [normalizeIdentifier latin1 (serializeChunks (replicate 999 97) False)]\<rparr>)
           (91 # 94 # replicate 999 97 @ 93 # []) = ok (c', [])) \<and>
   (\<exists>cs' d' rest'.
      tokenizeDefinitionStart latin1 emptyContainerState emptyContext
        (91 # 94 # replicate 999 97 @ 93 # 58 # []) = ok (cs', d', rest')) \<and>
   labelBody (replicate 1000 97) \<and> hasData (replicate 1000 97) \<and>
   tokenizeFootnoteCall latin1
     (emptyContext\<lparr>footnotes :=
        [normalizeIdentifier latin1 (serializeChunks (replicate 1000 97) False)]\<rparr>)
     (91 # 94 # replicate 1000 97 @ 93 # []) = nok \<and>
   tokenizeDefinitionStart latin1 emptyContainerState emptyContext
     (91 # 94 # replicate 1000 97 @ 93 # 58 # []) = nok"
proof -
  have lb: "labelBody (replicate n 97)" for n
    by (rule labelBody_plain) (simp add: list_all_iff)
  have hd: "hasData (replicate n 97)" if "0 < n" for n
    using that by (simp add: hasData_def list_ex_iff markdownLineEndingOrSpace_def)
  let ?c = "\<lambda>n. emptyContext\<lparr>footnotes :=
              [normalizeIdentifier latin1 (serializeChunks (replicate n 97) False)]\<rparr>"
  have mem: "normalizeIdentifier latin1 (serializeChunks (replicate n 97) False)
      \<in> set (footnotes (?c n))" for n
    by simp
  from label_size_limit [OF lb hd mem, of 999 "[]" emptyContainerState emptyContext]
  have a: "(\<exists>c'. tokenizeFootnoteCall latin1 (?c 999) (91 # 94 # replicate 999 97 @ 93 # [])
             = ok (c', []))"
    "(\<exists>cs' d' rest'.
      tokenizeDefinitionStart latin1 emptyContainerState emptyContext
        (91 # 94 # replicate 999 97 @ 93 # 58 # []) = ok (cs', d', rest'))"
    by simp_all
  from label_size_limit [OF lb hd mem, of 1000 "[]" emptyContainerState emptyContext]
  have b: "tokenizeFootnoteCall latin1 (?c 1000) (91 # 94 # replicate 1000 97 @ 93 # []) = nok"
    "tokenizeDefinitionStart latin1 emptyContainerState emptyContext
        (91 # 94 # replicate 1000 97 @ 93 # 58 # []) = nok"
    by simp_all
  from a b lb [of 999] lb [of 1000] hd [of 999] hd [of 1000] show ?thesis by simp
qed

text \<open>
  The claim as it was stated puts the limit one higher. A label of exactly 1000 codes,
  whose identifier is defined, is rejected by both tokenizers.
\<close>

theorem label_of_1000_rejected:
  "tokenizeFootnoteCall latin1
     (emptyContext\<lparr>footnotes :=
        [normalizeIdentifier latin1 (serializeChunks (replicate 1000 97) False)]\<rparr>)
     (91 # 94 # replicate 1000 97 @ 93 # []) = nok \<and>
   tokenizeDefinitionStart latin1 emptyContainerState emptyContext
     (91 # 94 # replicate 1000 97 @ 93 # 58 # []) = nok"
proof -
  have lb: "labelBody (replicate 1000 97)"
    by (rule labelBody_plain) (simp add: list_all_iff)
  show ?thesis
    using tokenizeDefinitionStart_label [OF lb, of latin1 emptyContainerState emptyContext "[]"]
    by (simp add: tokenizeFootnoteCall_label [OF lb])
qed


subsection \<open>A definition and a later call\<close>

lemma collapseRuns_letter:
  "\<not> markdownWhitespace u \<Longrightarrow> collapseRuns (u # a) = u # collapseRuns a"
  by (cases a) simp_all

lemma trimOne_letter: "u \<noteq> 32 \<Longrightarrow> trimOne (u # x) \<noteq> []"
  by (cases x rule: rev_cases) (auto simp: trimOne_def Let_def butlast_append split: if_splits)

lemma serializeChunks_characters:
  "list_all (\<lambda>code. 0 \<le> code) l \<Longrightarrow> serializeChunks_from atTab l expandTabs = map nat l"
  by (induction l arbitrary: atTab) auto

text \<open>
  Claim C4, as the source has it. Take a definition label and a call label that are label
  bodies of at most 999 codes with a code that is not whitespace, whose texts differ only
  in casing and in markdown whitespace: their words, one space apart, are the same text
  once lower-cased by the host language, whatever its case tables are. Then the
  definition \<^verbatim>\<open>[^id]: body\<close> is accepted, and so is the call, wherever it is
  tokenized later (the list of known identifiers has only grown); and the identifier
  that the exit handler gives the footnote definition node equals the one it gives the
  footnote reference node.
\<close>

theorem definition_then_call_identifiers:
  assumes dl: "labelBody dl" "length dl \<le> 999" "hasData dl"
    and cl: "labelBody cl" "length cl \<le> 999" "hasData cl"
    and eqv: "labelEquiv cm (serializeChunks dl False) (serializeChunks cl False)"
  shows "\<exists>cs1 c1 rest1.
           tokenizeDefinitionStart cm cs c0 (91 # 94 # dl @ 93 # 58 # rest) = ok (cs1, c1, rest1) \<and>
           ttype (store c1 (fresh c0 + 4)) = footnoteDefinitionLabelString \<and>
           (\<forall>c2. set (footnotes c1) \<subseteq> set (footnotes c2) \<longrightarrow>
              (\<exists>c3. tokenizeFootnoteCall cm c2 (91 # 94 # cl @ 93 # rest') = ok (c3, rest') \<and>
                 ttype (store c3 (fresh c2 + 3)) = footnoteCallString \<and>
                 identifier (exitFootnoteDefinitionLabelString cm c1 (fresh c0 + 4) resumed1 node1)
                   = identifier (exitFootnoteCallString cm c3 (fresh c2 + 3) resumed2 node2)))"
proof -
  let ?id = "normalizeIdentifier cm (serializeChunks dl False)"
  from eqv have same: "normalizeIdentifier cm (serializeChunks cl False) = ?id"
    by (simp add: labelEquiv_normalizeIdentifier)
  from tokenizeDefinitionStart_label [OF dl(1), of cm cs c0 rest] dl(2,3)
  obtain cs1 c1 rest1
    where d: "tokenizeDefinitionStart cm cs c0 (91 # 94 # dl @ 93 # 58 # rest) = ok (cs1, c1, rest1)"
      and fn: "set (footnotes c1) = insert ?id (set (footnotes c0))"
      and ty: "ttype (store c1 (fresh c0 + 4)) = footnoteDefinitionLabelString"
      and tx: "sliceSerialize c1 (fresh c0 + 4) False = serializeChunks dl False"
    by (auto split: if_splits)
  have "\<exists>c3. tokenizeFootnoteCall cm c2 (91 # 94 # cl @ 93 # rest') = ok (c3, rest') \<and>
           ttype (store c3 (fresh c2 + 3)) = footnoteCallString \<and>
           identifier (exitFootnoteDefinitionLabelString cm c1 (fresh c0 + 4) resumed1 node1)
             = identifier (exitFootnoteCallString cm c3 (fresh c2 + 3) resumed2 node2)"
    if sub: "set (footnotes c1) \<subseteq> set (footnotes c2)" for c2
  proof -
    from sub fn same
    have "normalizeIdentifier cm (serializeChunks cl False) \<in> set (footnotes c2)" by auto
    from tokenizeFootnoteCall_accepts [OF cl this, of rest']
    obtain c3 where "tokenizeFootnoteCall cm c2 (91 # 94 # cl @ 93 # rest') = ok (c3, rest')"
      and "ttype (store c3 (fresh c2 + 3)) = footnoteCallString"
      and "sliceSerialize c3 (fresh c2 + 3) False = serializeChunks cl False"
      by blast
    then show ?thesis
      by (auto simp: exitFootnoteDefinitionLabelString_def exitFootnoteCallString_def tx same)
  qed
  with d ty show ?thesis by blast
qed

text \<open>
  Two instances: the label \<^verbatim>\<open>A\<close>, a line feed and \<^verbatim>\<open>b\<close> with a space on either
  side, called as \<^verbatim>\<open>a b\<close>; and the label of the one letter \<^verbatim>\<open>U+00C9\<close>, called
  by its small letter \<^verbatim>\<open>U+00E9\<close>.
\<close>

theorem definition_then_call_identifiers_witness:
  "labelBody [32, 65, - 4, 98, 32] \<and> hasData [32, 65, - 4, 98, 32] \<and>
   labelBody (codes ''a b'') \<and> hasData (codes ''a b'') \<and>
   labelEquiv latin1 (serializeChunks [32, 65, - 4, 98, 32] False)
     (serializeChunks (codes ''a b'') False) \<and>
   (\<exists>cs1 c1 rest1.
      tokenizeDefinitionStart latin1 emptyContainerState emptyContext
          (codes ''[^'' @ [32, 65, - 4, 98, 32] @ codes '']: x'')
        = ok (cs1, c1, rest1) \<and>
      (\<exists>c3. tokenizeFootnoteCall latin1 c1 (codes ''[^a b]'') = ok (c3, []) \<and>
         identifier (exitFootnoteDefinitionLabelString latin1 c1 4 [32, 65, 10, 98, 32]
                       (enterFootnoteDefinition :: unit footnoteDefinitionNode))
           = identifier (exitFootnoteCallString latin1 c3 (fresh c1 + 3) (utf16 ''a b'')
                           enterFootnoteCall))) \<and>
   labelBody [201] \<and> hasData [201] \<and> labelBody [233] \<and> hasData [233] \<and>
   labelEquiv latin1 (serializeChunks [201] False) (serializeChunks [233] False) \<and>
   (\<exists>cs1 c1 rest1.
      tokenizeDefinitionStart latin1 emptyContainerState emptyContext
          (codes ''[^'' @ [201] @ codes '']: x'')
        = ok (cs1, c1, rest1) \<and>
      (\<exists>c3. tokenizeFootnoteCall latin1 c1 (codes ''[^'' @ [233] @ codes '']'') = ok (c3, []) \<and>
         identifier (exitFootnoteDefinitionLabelString latin1 c1 4 [201]
                       (enterFootnoteDefinition :: unit footnoteDefinitionNode))
           = identifier (exitFootnoteCallString latin1 c3 (fresh c1 + 3) [233]
                           enterFootnoteCall)))"
proof -
  have dl: "labelBody [32, 65, - 4, 98, 32]" "length [32, 65, - 4, 98, 32 :: code] \<le> 999"
      "hasData [32, 65, - 4, 98, 32]"
    and cl: "labelBody (codes ''a b'')" "length (codes ''a b'') \<le> 999" "hasData (codes ''a b'')"
    and dl2: "labelBody [201]" "length [201 :: code] \<le> 999" "hasData [201]"
    and cl2: "labelBody [233]" "length [233 :: code] \<le> 999" "hasData [233]"
    by (simp_all add: codes_def hasData_def markdownLineEndingOrSpace_def)
  have eqv: "labelEquiv latin1 (serializeChunks [32, 65, - 4, 98, 32] False)
               (serializeChunks (codes ''a b'') False)"
    and eqv2: "labelEquiv latin1 (serializeChunks [201] False) (serializeChunks [233] False)"
    by code_simp+
  have i1: "codes ''[^'' @ [32, 65, - 4, 98, 32] @ codes '']: x''
          = 91 # 94 # [32, 65, - 4, 98, 32] @ 93 # 58 # codes '' x''"
    and i2: "codes ''[^a b]'' = 91 # 94 # codes ''a b'' @ 93 # []"
    and i3: "codes ''[^'' @ [201] @ codes '']: x'' = 91 # 94 # [201] @ 93 # 58 # codes '' x''"
    and i4: "codes ''[^'' @ [233] @ codes '']'' = 91 # 94 # [233] @ 93 # []"
    by (simp_all add: codes_def)
  from definition_then_call_identifiers
         [OF dl cl eqv, of emptyContainerState emptyContext "codes '' x''" "[]"
            "[32, 65, 10, 98, 32]" "enterFootnoteDefinition :: unit footnoteDefinitionNode"
            "utf16 ''a b''" enterFootnoteCall]
  have 1: "\<exists>cs1 c1 rest1.
      tokenizeDefinitionStart latin1 emptyContainerState emptyContext
          (codes ''[^'' @ [32, 65, - 4, 98, 32] @ codes '']: x'')
        = ok (cs1, c1, rest1) \<and>
      (\<exists>c3. tokenizeFootnoteCall latin1 c1 (codes ''[^a b]'') = ok (c3, []) \<and>
         identifier (exitFootnoteDefinitionLabelString latin1 c1 4 [32, 65, 10, 98, 32]
                       (enterFootnoteDefinition :: unit footnoteDefinitionNode))
           = identifier (exitFootnoteCallString latin1 c3 (fresh c1 + 3) (utf16 ''a b'')
                           enterFootnoteCall))"
    unfolding i1 i2 by (simp add: emptyContext_def) blast
  from definition_then_call_identifiers
         [OF dl2 cl2 eqv2, of emptyContainerState emptyContext "codes '' x''" "[]"
            "[201]" "enterFootnoteDefinition :: unit footnoteDefinitionNode"
            "[233]" enterFootnoteCall]
  have 2: "\<exists>cs1 c1 rest1.
      tokenizeDefinitionStart latin1 emptyContainerState emptyContext
          (codes ''[^'' @ [201] @ codes '']: x'')
        = ok (cs1, c1, rest1) \<and>
      (\<exists>c3. tokenizeFootnoteCall latin1 c1 (codes ''[^'' @ [233] @ codes '']'') = ok (c3, []) \<and>
         identifier (exitFootnoteDefinitionLabelString latin1 c1 4 [201]
                       (enterFootnoteDefinition :: unit footnoteDefinitionNode))
           = identifier (exitFootnoteCallString latin1 c3 (fresh c1 + 3) [233]
                           enterFootnoteCall))"
    unfolding i3 i4 by (simp add: emptyContext_def) blast
  from dl cl dl2 cl2 eqv eqv2 1 2 show ?thesis by blast
qed

text \<open>
  The claim as it was stated takes every identifier that is not empty once its whitespace
  is collapsed and trimmed. The label of 1000 letters \<^verbatim>\<open>x\<close> is one: it has no
  whitespace and no bracket. The definition tokenizer rejects the definition with this
  label at the size limit, so no definition node is built.
\<close>

theorem definition_label_rejected:
  "trimOne (collapseRuns (serializeChunks (replicate 1000 120) False)) \<noteq> [] \<and>
   tokenizeDefinitionStart latin1 emptyContainerState emptyContext
     (91 # 94 # replicate 1000 120 @ 93 # 58 # codes '' body'') = nok"
proof -
  have "serializeChunks (replicate 1000 120) False = replicate 1000 120"
    by (simp add: serializeChunks_def serializeChunks_characters list_all_iff)
  also have "\<dots> = 120 # replicate 999 120"
    by (simp add: replicate_Suc [symmetric] del: replicate_Suc)
  finally have 1: "trimOne (collapseRuns (serializeChunks (replicate 1000 120) False)) \<noteq> []"
    by (simp add: collapseRuns_letter markdownWhitespace_def trimOne_letter
        del: replicate_Suc)
  have lb: "labelBody (replicate 1000 120)"
    by (rule labelBody_plain) (simp add: list_all_iff)
  have 2: "tokenizeDefinitionStart latin1 emptyContainerState emptyContext
     (91 # 94 # replicate 1000 120 @ 93 # 58 # codes '' body'') = nok"
    using tokenizeDefinitionStart_label [OF lb, of latin1 emptyContainerState emptyContext
        "codes '' body''"]
    by simp
  from 1 2 show ?thesis by simp
qed

subsection \<open>Continuation lines of a definition\<close>

text \<open>
  The indent tokenizer consumes up to four markdown spaces into one token, and succeeds
  when the token, with tabs expanded, is four characters long: that is, when the line
  starts with at least four markdown spaces.
\<close>

lemma factorySpace_prefix_limited:
  "stack c = t # ts \<Longrightarrow> factorySpace_prefix type (Some l) sz c input = (c', rest) \<Longrightarrow>
   n = min (l - sz) (indentOf input) \<Longrightarrow>
   rest = drop n input \<and> chunks c' = chunks c @ take n input \<and>
   events c' = events c @ [(exit, t)] \<and>
   store c' t = (store c t)\<lparr>tend := length (chunks c) + n\<rparr>"
proof (induction input arbitrary: sz c n)
  case Nil
  then show ?case by (auto simp: indentOf_def effects_exit_def)
next
  case (Cons code input)
  show ?case
  proof (cases "markdownSpace code \<and> sz < l")
    case True
    let ?c1 = "effects_consume code c"
    from Cons.prems(2) True
    have r: "factorySpace_prefix type (Some l) (sz + 1) ?c1 input = (c', rest)" by simp
    have st: "stack ?c1 = t # ts" using Cons.prems(1) by simp
    define m where "m = min (l - (sz + 1)) (indentOf input)"
    from True have "indentOf (code # input) = Suc (indentOf input)"
      by (simp add: indentOf_def)
    with True Cons.prems(3) have n: "n = Suc m" unfolding m_def by auto
    from Cons.IH [OF st r m_def] show ?thesis by (simp add: n)
  next
    case False
    with Cons.prems have "n = 0" by (auto simp: indentOf_def)
    with False Cons.prems show ?thesis by (auto simp: effects_exit_def)
  qed
qed

lemma serializeChunks_spaces:
  "list_all markdownSpace l \<Longrightarrow> length (serializeChunks_from atTab l True) = length l"
  by (induction l arbitrary: atTab) (auto simp: markdownSpace_def)

lemma take_indent_spaces: "n \<le> indentOf input \<Longrightarrow> list_all markdownSpace (take n input)"
  unfolding indentOf_def
proof (induction input arbitrary: n)
  case Nil
  then show ?case by simp
next
  case (Cons code input)
  then show ?case by (cases n) (auto split: if_splits)
qed

lemma indentOf_length: "indentOf input \<le> length input"
  by (simp add: indentOf_def length_takeWhile_le)

lemma tokenizeIndent_iff:
  assumes "input = code # tail" "markdownSpace code"
  shows "accepted (tokenizeIndent c input) = (4 \<le> indentOf input)"
    and "4 \<le> indentOf input \<Longrightarrow> restOf (tokenizeIndent c input) = drop 4 input"
proof -
  let ?c0 = "effects_enter footnoteDefinitionIndent c"
  let ?n = "min 4 (indentOf input)"
  obtain c' rest where fs: "factorySpace_prefix footnoteDefinitionIndent (Some 4) 0 ?c0 input
      = (c', rest)"
    by (cases "factorySpace_prefix footnoteDefinitionIndent (Some 4) 0 ?c0 input")
  have st: "stack ?c0 = fresh c # stack c" by simp
  from factorySpace_prefix_limited [OF st fs, of ?n]
  have r: "rest = drop ?n input" "chunks c' = chunks c @ take ?n input"
    "events c' = events c @ [(enter, fresh c), (exit, fresh c)]"
    "store c' (fresh c) = \<lparr>ttype = footnoteDefinitionIndent, tstart = length (chunks c),
        tend = length (chunks c) + ?n\<rparr>"
    by simp_all
  have ln: "length (take ?n input) = ?n"
    using indentOf_length [of input] by simp
  have "slice (chunks c @ take ?n input) (length (chunks c)) (length (chunks c) + ?n)
      = take ?n input"
    using slice_append_middle [of "chunks c" "take ?n input" "[]"] by (simp only: ln) simp
  then have len: "length (sliceSerialize c' (fresh c) True) = ?n"
    using serializeChunks_spaces [OF take_indent_spaces [of ?n input], of False] ln
    by (simp add: sliceSerialize_def serializeChunks_def r)
  have ti: "tokenizeIndent c input = afterPrefix (c', rest)"
    using assms fs by (simp add: tokenizeIndent_def)
  show "accepted (tokenizeIndent c input) = (4 \<le> indentOf input)"
    by (auto simp: ti afterPrefix_def Let_def r len accepted_def)
  show "restOf (tokenizeIndent c input) = drop 4 input" if "4 \<le> indentOf input"
    using that by (auto simp: ti afterPrefix_def Let_def r len restOf_def min_def)
qed

lemma continuation_blank:
  assumes "isBlankLine input"
  shows "tokenizeDefinitionContinuation cs c input
           = ((if initialBlankLine cs then cs\<lparr>furtherBlankLines := True\<rparr> else cs),
              ok (c, input))"
proof -
  from assms have "accepted (tokenizeBlankLine c input)" by (simp add: tokenizeBlankLine_iff)
  then obtain r where "tokenizeBlankLine c input = ok r"
    by (cases "tokenizeBlankLine c input") (auto simp: accepted_def)
  then show ?thesis
    by (simp add: tokenizeDefinitionContinuation_def continuation_onBlank_def)
qed

lemma continuation_not_blank:
  assumes "\<not> isBlankLine input"
  shows "tokenizeDefinitionContinuation cs c input = continuation_notBlank cs c input"
proof -
  from assms have "\<not> accepted (tokenizeBlankLine c input)" by (simp add: tokenizeBlankLine_iff)
  then have "tokenizeBlankLine c input = nok"
    by (cases "tokenizeBlankLine c input") (auto simp: accepted_def)
  then show ?thesis by (simp add: tokenizeDefinitionContinuation_def)
qed

text \<open>
  What the lines that continued a definition leave of the two flags: the definition
  still counts as opened on a blank line when it did and every line since was blank, and
  further blank lines are recorded when, besides, there was such a line. A line that is
  not blank and continues the definition clears both.
\<close>

lemma continueLines_flags:
  "continueLines cs0 prev = Some cs \<Longrightarrow>
   initialBlankLine cs = (initialBlankLine cs0 \<and> list_all isBlankLine (map snd prev)) \<and>
   furtherBlankLines cs
     = (list_all isBlankLine (map snd prev) \<and>
        (furtherBlankLines cs0 \<or> (initialBlankLine cs0 \<and> prev \<noteq> [])))"
proof (induction prev arbitrary: cs0)
  case Nil
  then show ?case by simp
next
  case (Cons line others)
  obtain c input where line: "line = (c, input)" by (cases line)
  show ?case
  proof (cases "isBlankLine input")
    case True
    let ?cs1 = "if initialBlankLine cs0 then cs0\<lparr>furtherBlankLines := True\<rparr> else cs0"
    from Cons.prems True have "continueLines ?cs1 others = Some cs"
      by (simp add: line continuation_blank)
    from Cons.IH [OF this] True show ?thesis
      by (auto simp: line)
  next
    case False
    let ?cs1 = "cs0\<lparr>initialBlankLine := False, furtherBlankLines := False\<rparr>"
    from Cons.prems False have "continueLines ?cs1 others = Some cs"
      by (auto simp: line continuation_not_blank continuation_notBlank_def
          split: if_splits result.splits)
    from Cons.IH [OF this] False show ?thesis
      by (simp add: line)
  qed
qed

lemma continuation_accepts:
  "accepted (snd (tokenizeDefinitionContinuation cs c input))
     = (isBlankLine input \<or> (4 \<le> indentOf input \<and> \<not> furtherBlankLines cs))"
proof (cases "isBlankLine input")
  case True
  then show ?thesis by (simp add: continuation_blank accepted_def)
next
  case False
  then obtain code tail where input: "input = code # tail"
    by (cases input) (auto simp: isBlankLine_def)
  show ?thesis
  proof (cases "markdownSpace code")
    case True
    with False tokenizeIndent_iff(1) [OF input True, of c] show ?thesis
      by (simp add: continuation_not_blank continuation_notBlank_def input accepted_def)
  next
    case sp: False
    with False show ?thesis
      by (simp add: continuation_not_blank continuation_notBlank_def input accepted_def
          indentOf_def)
  qed
qed

lemma continuation_rest:
  assumes "\<not> isBlankLine input" "4 \<le> indentOf input" "\<not> furtherBlankLines cs"
  shows "restOf (snd (tokenizeDefinitionContinuation cs c input)) = drop 4 input"
    and "fst (tokenizeDefinitionContinuation cs c input)
           = cs\<lparr>initialBlankLine := False, furtherBlankLines := False\<rparr>"
proof -
  from assms(1) obtain code tail where input: "input = code # tail"
    by (cases input) (auto simp: isBlankLine_def)
  from assms(2) have sp: "markdownSpace code"
    by (auto simp: input indentOf_def split: if_splits)
  from assms tokenizeIndent_iff(2) [OF input sp, of c]
  show "restOf (snd (tokenizeDefinitionContinuation cs c input)) = drop 4 input"
    by (simp add: continuation_not_blank continuation_notBlank_def input sp)
  from assms show "fst (tokenizeDefinitionContinuation cs c input)
           = cs\<lparr>initialBlankLine := False, furtherBlankLines := False\<rparr>"
    by (simp add: continuation_not_blank continuation_notBlank_def input sp)
qed

text \<open>
  Claim C6. Take a definition \<^verbatim>\<open>[^label]:\<close> that the definition tokenizer accepts,
  with the codes \<open>rest\<close> after its colon, and lines \<open>prev\<close> after its opening line that
  each continued it. In the continuation machine: every blank line is accepted, in
  whatever state, and nothing of it is consumed. The next line continues the definition
  exactly when it is blank, or is indented by at least four markdown spaces while the
  definition is not closed by blank lines: once the definition has opened on a blank line
  and a further blank line has followed, no line that is not blank continues it, however
  it is indented; in every other case, and so after any line that was not blank, a line
  that is not blank continues the definition if and only if it is indented by at least
  four markdown spaces, and these four are consumed. In particular, for \<^verbatim>\<open>[^n]:\<close>,
  a blank line and then \<^verbatim>\<open>foo\<close> the continuation fails at \<^verbatim>\<open>foo\<close>; for
  \<^verbatim>\<open>[^n]:\<close> and then \<^verbatim>\<open>foo\<close> indented by four spaces it succeeds and leaves
  \<^verbatim>\<open>foo\<close> as content of the definition.
\<close>

theorem definition_continuation:
  assumes "labelBody l" and "length l \<le> 999" and "hasData l"
    and "continueLines
           (containerOf (tokenizeDefinitionStart cm emptyContainerState c0
              (91 # 94 # l @ 93 # 58 # rest)))
           prev = Some cs"
  shows "(isBlankLine input \<longrightarrow>
            accepted (snd (tokenizeDefinitionContinuation cs' c input)) \<and>
            restOf (snd (tokenizeDefinitionContinuation cs' c input)) = input) \<and>
         accepted (snd (tokenizeDefinitionContinuation cs c input))
           = continuesDefinition (isBlankLine rest) (map snd prev) input \<and>
         (\<not> isBlankLine input \<and> continuesDefinition (isBlankLine rest) (map snd prev) input \<longrightarrow>
            restOf (snd (tokenizeDefinitionContinuation cs c input)) = drop 4 input) \<and>
         (let cs1 = containerOf (tokenizeDefinitionStart cm emptyContainerState emptyContext
                       (codes ''[^n]:'' @ [- 4, - 4] @ codes ''foo''))
          in initialBlankLine cs1 \<and>
             accepted (snd (tokenizeDefinitionContinuation cs1 emptyContext
                              ([- 4] @ codes ''foo''))) \<and>
             \<not> accepted (snd (tokenizeDefinitionContinuation
                             (fst (tokenizeDefinitionContinuation cs1 emptyContext
                                     ([- 4] @ codes ''foo'')))
                             emptyContext (codes ''foo'')))) \<and>
         (let cs1 = containerOf (tokenizeDefinitionStart cm emptyContainerState emptyContext
                       (codes ''[^n]:'' @ [- 4] @ codes ''    foo''))
          in accepted (snd (tokenizeDefinitionContinuation cs1 emptyContext
                              (codes ''    foo''))) \<and>
             restOf (snd (tokenizeDefinitionContinuation cs1 emptyContext (codes ''    foo'')))
               = codes ''foo'')"
proof -
  let ?cs0 = "containerOf (tokenizeDefinitionStart cm emptyContainerState c0
                (91 # 94 # l @ 93 # 58 # rest))"
  have opened: "containerOf (tokenizeDefinitionStart cm emptyContainerState d
                   (91 # 94 # k @ 93 # 58 # r))
      = \<lparr>initialBlankLine = isBlankLine r, furtherBlankLines = False\<rparr>"
    if "labelBody k" "length k \<le> 999" "hasData k" for d k r
    using tokenizeDefinitionStart_label [OF that(1), of cm emptyContainerState d r] that(2,3)
    by (auto simp: containerOf_def emptyContainerState_def)
  from assms(4) [unfolded opened [OF assms(1-3)]]
  have flags: "furtherBlankLines cs = closedByBlankLines (isBlankLine rest) (map snd prev)"
    using continueLines_flags [of "\<lparr>initialBlankLine = isBlankLine rest,
        furtherBlankLines = False\<rparr>" prev cs]
    by (auto simp: closedByBlankLines_def)
  have 1: "isBlankLine input \<longrightarrow>
            accepted (snd (tokenizeDefinitionContinuation cs' c input)) \<and>
            restOf (snd (tokenizeDefinitionContinuation cs' c input)) = input"
    by (simp add: continuation_blank accepted_def restOf_def)
  have 2: "accepted (snd (tokenizeDefinitionContinuation cs c input))
           = continuesDefinition (isBlankLine rest) (map snd prev) input"
    by (simp add: continuation_accepts continuesDefinition_def flags)
  have 3: "\<not> isBlankLine input \<and> continuesDefinition (isBlankLine rest) (map snd prev) input \<longrightarrow>
            restOf (snd (tokenizeDefinitionContinuation cs c input)) = drop 4 input"
    using continuation_rest(1) [of input cs c]
    by (auto simp: continuesDefinition_def flags)
  have n: "labelBody (codes ''n'')" "length (codes ''n'') \<le> 999" "hasData (codes ''n'')"
    by (simp_all add: codes_def hasData_def markdownLineEndingOrSpace_def)
  have o1: "containerOf (tokenizeDefinitionStart cm emptyContainerState emptyContext
                       (codes ''[^n]:'' @ [- 4, - 4] @ codes ''foo''))
      = \<lparr>initialBlankLine = True, furtherBlankLines = False\<rparr>"
    using opened [OF n, of emptyContext "[- 4, - 4] @ codes ''foo''"]
    by (simp add: codes_def isBlankLine_def markdownLineEnding_def)
  have o2: "containerOf (tokenizeDefinitionStart cm emptyContainerState emptyContext
                       (codes ''[^n]:'' @ [- 4] @ codes ''    foo''))
      = \<lparr>initialBlankLine = True, furtherBlankLines = False\<rparr>"
    using opened [OF n, of emptyContext "[- 4] @ codes ''    foo''"]
    by (simp add: codes_def isBlankLine_def markdownLineEnding_def)
  have 4: "let cs1 = containerOf (tokenizeDefinitionStart cm emptyContainerState emptyContext
                       (codes ''[^n]:'' @ [- 4, - 4] @ codes ''foo''))
          in initialBlankLine cs1 \<and>
             accepted (snd (tokenizeDefinitionContinuation cs1 emptyContext
                              ([- 4] @ codes ''foo''))) \<and>
             \<not> accepted (snd (tokenizeDefinitionContinuation
                             (fst (tokenizeDefinitionContinuation cs1 emptyContext
                                     ([- 4] @ codes ''foo'')))
                             emptyContext (codes ''foo'')))"
    unfolding o1 by code_simp
  have 5: "let cs1 = containerOf (tokenizeDefinitionStart cm emptyContainerState emptyContext
                       (codes ''[^n]:'' @ [- 4] @ codes ''    foo''))
          in accepted (snd (tokenizeDefinitionContinuation cs1 emptyContext
                              (codes ''    foo''))) \<and>
             restOf (snd (tokenizeDefinitionContinuation cs1 emptyContext (codes ''    foo'')))
               = codes ''foo''"
    unfolding o2 by code_simp
  from 1 2 3 4 5 show ?thesis by blast
qed

text \<open>
  Three runs. After \<^verbatim>\<open>[^n]:\<close>, the line \<^verbatim>\<open>foo\<close> indented by four spaces and a
  blank line, the line \<^verbatim>\<open>bar\<close> indented by four spaces continues the definition:
  the line that was not blank has cleared what the blank opening line had set. After
  \<^verbatim>\<open>[^n]:\<close> and a blank line, the line \<^verbatim>\<open>foo\<close> indented by four spaces does not
  continue it. After \<^verbatim>\<open>[^n]: x\<close>, the line \<^verbatim>\<open>foo\<close> indented by three spaces
  does not continue it.
\<close>

theorem definition_continuation_witness:
  "labelBody (codes ''n'') \<and> length (codes ''n'') \<le> 999 \<and> hasData (codes ''n'') \<and>
   continueLines
     (containerOf (tokenizeDefinitionStart latin1 emptyContainerState emptyContext
        (91 # 94 # codes ''n'' @ 93 # 58 #
           [- 4] @ codes ''    foo'' @ [- 4, - 4] @ codes ''    bar'')))
     [(emptyContext, codes ''    foo'' @ [- 4, - 4] @ codes ''    bar''),
      (emptyContext, [- 4] @ codes ''    bar'')]
     = Some \<lparr>initialBlankLine = False, furtherBlankLines = False\<rparr> \<and>
   accepted (snd (tokenizeDefinitionContinuation
                    \<lparr>initialBlankLine = False, furtherBlankLines = False\<rparr> emptyContext
                    (codes ''    bar''))) \<and>
   restOf (snd (tokenizeDefinitionContinuation
                  \<lparr>initialBlankLine = False, furtherBlankLines = False\<rparr> emptyContext
                  (codes ''    bar''))) = codes ''bar'' \<and>
   continueLines
     (containerOf (tokenizeDefinitionStart latin1 emptyContainerState emptyContext
        (91 # 94 # codes ''n'' @ 93 # 58 # [- 4, - 4] @ codes ''    foo'')))
     [(emptyContext, [- 4] @ codes ''    foo'')]
     = Some \<lparr>initialBlankLine = True, furtherBlankLines = True\<rparr> \<and>
   4 \<le> indentOf (codes ''    foo'') \<and>
   \<not> accepted (snd (tokenizeDefinitionContinuation
                      \<lparr>initialBlankLine = True, furtherBlankLines = True\<rparr> emptyContext
                      (codes ''    foo''))) \<and>
   accepted (snd (tokenizeDefinitionContinuation
                    \<lparr>initialBlankLine = True, furtherBlankLines = True\<rparr> emptyContext
                    [- 4, 102])) \<and>
   continueLines
     (containerOf (tokenizeDefinitionStart latin1 emptyContainerState emptyContext
        (91 # 94 # codes ''n'' @ 93 # 58 # codes '' x'' @ [- 4] @ codes ''   foo'')))
     [] = Some \<lparr>initialBlankLine = False, furtherBlankLines = False\<rparr> \<and>
   \<not> accepted (snd (tokenizeDefinitionContinuation
                      \<lparr>initialBlankLine = False, furtherBlankLines = False\<rparr> emptyContext
                      (codes ''   foo'')))"
proof -
  let ?open = "\<lparr>initialBlankLine = False, furtherBlankLines = False\<rparr>"
  let ?closed = "\<lparr>initialBlankLine = True, furtherBlankLines = True\<rparr>"
  let ?restA = "[- 4] @ codes ''    foo'' @ [- 4, - 4] @ codes ''    bar''"
  let ?prevA = "[(emptyContext, codes ''    foo'' @ [- 4, - 4] @ codes ''    bar''),
                 (emptyContext, [- 4] @ codes ''    bar'')]"
  let ?restB = "[- 4, - 4] @ codes ''    foo''"
  let ?prevB = "[(emptyContext, [- 4] @ codes ''    foo'')]"
  let ?restC = "codes '' x'' @ [- 4] @ codes ''   foo''"
  have n: "labelBody (codes ''n'')" "length (codes ''n'') \<le> 999" "hasData (codes ''n'')"
    by (simp_all add: codes_def hasData_def markdownLineEndingOrSpace_def)
  have hA: "continueLines
     (containerOf (tokenizeDefinitionStart latin1 emptyContainerState emptyContext
        (91 # 94 # codes ''n'' @ 93 # 58 # ?restA))) ?prevA = Some ?open"
    by code_simp
  have hB: "continueLines
     (containerOf (tokenizeDefinitionStart latin1 emptyContainerState emptyContext
        (91 # 94 # codes ''n'' @ 93 # 58 # ?restB))) ?prevB = Some ?closed"
    by code_simp
  have hC: "continueLines
     (containerOf (tokenizeDefinitionStart latin1 emptyContainerState emptyContext
        (91 # 94 # codes ''n'' @ 93 # 58 # ?restC))) [] = Some ?open"
    by code_simp
  have lines: "\<not> isBlankLine (codes ''    bar'')" "4 \<le> indentOf (codes ''    bar'')"
    "\<not> isBlankLine (codes ''    foo'')" "4 \<le> indentOf (codes ''    foo'')"
    "\<not> isBlankLine (codes ''   foo'')" "\<not> 4 \<le> indentOf (codes ''   foo'')"
    "isBlankLine [- 4, 102]"
    by (simp_all add: isBlankLine_def indentOf_def codes_def markdownLineEnding_def
        markdownSpace_def)
  have cA: "continuesDefinition (isBlankLine ?restA) (map snd ?prevA) (codes ''    bar'')"
    and cB: "\<not> continuesDefinition (isBlankLine ?restB) (map snd ?prevB) (codes ''    foo'')"
    and cC: "\<not> continuesDefinition (isBlankLine ?restC) (map snd []) (codes ''   foo'')"
    by (simp_all add: continuesDefinition_def closedByBlankLines_def isBlankLine_def
        indentOf_def codes_def markdownLineEnding_def markdownSpace_def)
  from definition_continuation [OF n hA, of "codes ''    bar''" ?open emptyContext] cA lines
  have a: "accepted (snd (tokenizeDefinitionContinuation ?open emptyContext
                            (codes ''    bar'')))"
    "restOf (snd (tokenizeDefinitionContinuation ?open emptyContext (codes ''    bar'')))
       = drop 4 (codes ''    bar'')"
    by blast+
  from definition_continuation [OF n hB, of "codes ''    foo''" ?closed emptyContext] cB
  have b: "\<not> accepted (snd (tokenizeDefinitionContinuation ?closed emptyContext
                              (codes ''    foo'')))"
    by blast
  from definition_continuation [OF n hB, of "[- 4, 102]" ?closed emptyContext] lines(7)
  have b': "accepted (snd (tokenizeDefinitionContinuation ?closed emptyContext [- 4, 102]))"
    by blast
  from definition_continuation [OF n hC, of "codes ''   foo''" ?open emptyContext] cC
  have c: "\<not> accepted (snd (tokenizeDefinitionContinuation ?open emptyContext
                              (codes ''   foo'')))"
    by blast
  have "drop 4 (codes ''    bar'') = codes ''bar''" by (simp add: codes_def)
  with n hA hB hC a b b' c lines(4) show ?thesis by simp
qed

section \<open>Properties of the serializer\<close>

text \<open>
  The loop of \<^verbatim>\<open>indentLines\<close> with the map of the definition handler gives the text
  with its lines after the first indented by four columns, empty lines apart.
\<close>

lemma splitEol_from_not_empty: "splitEol_from piece value \<noteq> []"
  by (induction piece "value" rule: splitEol_from.induct) auto

lemma weave_Cons:
  "ls \<noteq> [] \<Longrightarrow> weave (l # ls) (s # seps) = l @ s @ weave ls seps"
  by (cases ls) simp_all

lemma map_later_line: "footnoteDefinition_map l (Suc n) (l = []) = (if l = [] then [] else utf16 ''    '' @ l)"
  by (simp add: footnoteDefinition_map_def)

lemma indentLines_loop_weave:
  "concat (indentLines_loop footnoteDefinition_map n piece value result)
     = concat result @
       weave (footnoteDefinition_map (hd (splitEol_from piece value)) n
                (hd (splitEol_from piece value) = [])
              # map (\<lambda>l. if l = [] then [] else utf16 ''    '' @ l)
                  (tl (splitEol_from piece value)))
         (eolsOf value)"
proof (induction footnoteDefinition_map n piece "value" result rule: indentLines_loop.induct)
  case (1 n piece result)
  then show ?case by simp
next
  case (2 n piece u result)
  then show ?case by (simp add: map_later_line [of "[]", simplified])
next
  case (3 n piece u v us result)
  have ne: "splitEol_from [] xs \<noteq> []" for xs by (rule splitEol_from_not_empty)
  have later: "footnoteDefinition_map (hd L) (Suc n) (hd L = [])
                 # map (\<lambda>l. if l = [] then [] else utf16 ''    '' @ l) (tl L)
               = map (\<lambda>l. if l = [] then [] else utf16 ''    '' @ l) L"
    if "L \<noteq> []" for L
    using that map_later_line [of "hd L" n] by (cases L) simp_all
  show ?case
  proof (cases "u = 13 \<and> v = 10")
    case True
    then have step: "splitEol_from piece (u # v # us) = piece # splitEol_from [] us"
      "eolsOf (u # v # us) = [13, 10] # eolsOf us"
      "indentLines_loop footnoteDefinition_map n piece (u # v # us) result
         = indentLines_loop footnoteDefinition_map (n + 1) [] us
             (result @ [footnoteDefinition_map piece n (piece = []), [13, 10]])"
      by simp_all
    from "3.hyps"(1) [OF True] show ?thesis
      unfolding step by (simp add: later [OF ne] weave_Cons ne)
  next
    case False
    show ?thesis
    proof (cases "u = 10 \<or> u = 13")
      case True
      with False have step: "splitEol_from piece (u # v # us) = piece # splitEol_from [] (v # us)"
        "eolsOf (u # v # us) = [u] # eolsOf (v # us)"
        "indentLines_loop footnoteDefinition_map n piece (u # v # us) result
           = indentLines_loop footnoteDefinition_map (n + 1) [] (v # us)
               (result @ [footnoteDefinition_map piece n (piece = []), [u]])"
        by auto
      from "3.hyps"(2) [OF False True] show ?thesis
        unfolding step by (simp add: later [OF ne] weave_Cons ne)
    next
      case no: False
      with False have step: "splitEol_from piece (u # v # us) = splitEol_from (piece @ [u]) (v # us)"
        "eolsOf (u # v # us) = eolsOf (v # us)"
        "indentLines_loop footnoteDefinition_map n piece (u # v # us) result
           = indentLines_loop footnoteDefinition_map n (piece @ [u]) (v # us) result"
        by auto
      from "3.hyps"(3) [OF False no] show ?thesis
        unfolding step by simp
    qed
  qed
qed

lemma indentLines_eq: "indentLines value footnoteDefinition_map = indentContinuation value"
proof -
  obtain first others where L: "splitEol_from [] value = first # others"
    using splitEol_from_not_empty [of "[]" "value"] by (cases "splitEol_from [] value") auto
  show ?thesis
    using indentLines_loop_weave [of 0 "[]" "value" "[]"]
    by (simp add: indentLines_def indentContinuation_def splitEol_def L
        footnoteDefinition_map_def)
qed

text \<open>
  What the handler returns, in its parts. The tracker only moves: the text a move
  returns is the text it was given.
\<close>

lemma move_fst: "fst (move input tracker) = input"
  by (simp add: move_def Let_def)

lemma move_lineShift: "lineShift (snd (move input tracker)) = lineShift tracker"
  by (simp add: move_def Let_def)

lemma footnoteDefinitionHandler_value:
  "\<exists>config (info :: trackFields).
     footnoteDefinitionHandler state names node safeOptions
       = utf16 ''[^''
         @ safe state (names @ [''footnoteDefinition'', ''label'']) (association state node) config
         @ utf16 '']:'' @ (if children node \<noteq> [] then utf16 '' '' else [])
         @ indentLines
             (containerFlow state (names @ [''footnoteDefinition'']) info (children node))
             footnoteDefinition_map
     \<and> before config = utf16 ''[^'' \<and> after config = utf16 '']''
     \<and> lineShift info = lineShift safeOptions + 4"
proof -
  define tracker1 where "tracker1 = snd (move (utf16 ''[^'') (track safeOptions))"
  define config where "config =
    \<lparr>line = line tracker1, column = column tracker1, lineShift = lineShift tracker1,
     before = utf16 ''[^'', after = utf16 '']''\<rparr>"
  define v2 where "v2 = safe state (names @ [''footnoteDefinition'', ''label''])
    (association state node) config"
  define tracker2 where "tracker2 = snd (move v2 tracker1)"
  define v3 where "v3 = utf16 '']:'' @ (if children node \<noteq> [] then utf16 '' '' else [])"
  define info where "info = shift 4 (snd (move v3 tracker2))"
  have "footnoteDefinitionHandler state names node safeOptions
      = utf16 ''[^'' @ v2 @ v3
        @ indentLines (containerFlow state (names @ [''footnoteDefinition'']) info (children node))
            footnoteDefinition_map"
    unfolding footnoteDefinitionHandler_def Let_def split_def move_fst
    by (simp only: tracker1_def [symmetric] config_def [symmetric] v2_def [symmetric]
        tracker2_def [symmetric] v3_def [symmetric] info_def [symmetric] append_assoc
        append_Cons append_Nil)
  moreover have "lineShift info = lineShift safeOptions + 4"
    by (simp add: info_def shift_def tracker2_def tracker1_def move_lineShift track_def)
  moreover have "before config = utf16 ''[^''" "after config = utf16 '']''"
    by (simp_all add: config_def)
  ultimately have "footnoteDefinitionHandler state names node safeOptions
       = utf16 ''[^''
         @ safe state (names @ [''footnoteDefinition'', ''label'']) (association state node) config
         @ utf16 '']:'' @ (if children node \<noteq> [] then utf16 '' '' else [])
         @ indentLines
             (containerFlow state (names @ [''footnoteDefinition'']) info (children node))
             footnoteDefinition_map
     \<and> before config = utf16 ''[^'' \<and> after config = utf16 '']''
     \<and> lineShift info = lineShift safeOptions + 4"
    unfolding v2_def v3_def by simp
  then show ?thesis
    by - (rule exI [of _ config], rule exI [of _ info], assumption)
qed

text \<open>
  Claim C9, as the source has it. Serializing a footnote definition node yields
  \<^verbatim>\<open>[^\<close>, then the escaped association of the node (its label, or its decoded
  identifier when it has no label), escaped between \<^verbatim>\<open>[^\<close> and \<^verbatim>\<open>]\<close>, then
  \<^verbatim>\<open>]:\<close>, then one space exactly when the node has a child, then the flow-joined
  children, joined with the line shift raised by four, in which every line after the
  first is indented by four columns except the empty lines, which are left empty. The
  handler tests a line for being the empty string: a line of whitespace only is indented.
\<close>

theorem footnoteDefinition_serialized:
  "\<exists>config (info :: trackFields).
     footnoteDefinitionHandler state names node safeOptions
       = utf16 ''[^''
         @ safe state (names @ [''footnoteDefinition'', ''label'']) (association state node) config
         @ utf16 '']:'' @ (if children node \<noteq> [] then utf16 '' '' else [])
         @ indentContinuation
             (containerFlow state (names @ [''footnoteDefinition'']) info (children node))
     \<and> before config = utf16 ''[^'' \<and> after config = utf16 '']''
     \<and> lineShift info = lineShift safeOptions + 4"
  using footnoteDefinitionHandler_value [of state names node safeOptions]
  by (simp only: indentLines_eq)

text \<open>
  An instance: the node with the label \<^verbatim>\<open>N\<close>, the identifier \<^verbatim>\<open>n\<close> and two
  paragraphs, the second of which has an empty line inside.
\<close>

theorem footnoteDefinition_serialized_witness:
  "footnoteDefinitionHandler plainHost []
     \<lparr>identifier = utf16 ''n'', label = utf16 ''N'',
      children = [paragraphNode (utf16 ''a''),
                  paragraphNode (utf16 ''b'' @ [10, 10] @ utf16 ''c'')]\<rparr>
     \<lparr>line = 1, column = 1, lineShift = 0\<rparr>
   = utf16 ''[^N]: a'' @ [10, 10] @ utf16 ''    b'' @ [10, 10] @ utf16 ''    c''"
proof -
  let ?node = "\<lparr>identifier = utf16 ''n'', label = utf16 ''N'',
      children = [paragraphNode (utf16 ''a''),
                  paragraphNode (utf16 ''b'' @ [10, 10] @ utf16 ''c'')]\<rparr>"
  from footnoteDefinition_serialized
         [of plainHost "[]" ?node "\<lparr>line = 1, column = 1, lineShift = 0\<rparr>"]
  obtain config info where
    "footnoteDefinitionHandler plainHost [] ?node \<lparr>line = 1, column = 1, lineShift = 0\<rparr>
       = utf16 ''[^''
         @ safe plainHost ([] @ [''footnoteDefinition'', ''label'']) (association plainHost ?node)
             config
         @ utf16 '']:'' @ (if children ?node \<noteq> [] then utf16 '' '' else [])
         @ indentContinuation
             (containerFlow plainHost ([] @ [''footnoteDefinition'']) (info :: trackFields)
                (children ?node))"
    by blast
  then show ?thesis
    by (simp add: plainHost_def association_def containerFlow_def move_def Let_def
        between_def utf16_def indentContinuation_def splitEol_def)
qed

text \<open>
  The claim as it was stated escapes the label in every case, and leaves every blank line
  unindented. A node with the identifier \<^verbatim>\<open>x\<close> and no label is written
  \<^verbatim>\<open>[^x]:\<close>, where the stated form gives \<^verbatim>\<open>[^]:\<close>. And in a node whose child
  is written \<^verbatim>\<open>a\<close>, a line of two spaces, \<^verbatim>\<open>b\<close>, the line of two spaces, which
  is a blank line, is indented to six spaces, where the stated form leaves it as it is.
\<close>

theorem footnoteDefinition_not_as_stated:
  "footnoteDefinitionHandler plainHost []
     \<lparr>identifier = utf16 ''x'', label = [], children = []\<rparr>
     \<lparr>line = 1, column = 1, lineShift = 0\<rparr> = utf16 ''[^x]:'' \<and>
   utf16 ''[^'' @ safe plainHost [''footnoteDefinition'', ''label''] []
       \<lparr>line = 1, column = 3, lineShift = 0, before = utf16 ''[^'', after = utf16 '']''\<rparr>
     @ utf16 '']:'' = utf16 ''[^]:'' \<and>
   isBlankLine (codes ''  '') \<and>
   footnoteDefinitionHandler plainHost []
     \<lparr>identifier = utf16 ''n'', label = utf16 ''n'',
      children = [paragraphNode (utf16 ''a'' @ [10] @ utf16 ''  '' @ [10] @ utf16 ''b'')]\<rparr>
     \<lparr>line = 1, column = 1, lineShift = 0\<rparr>
     = utf16 ''[^n]: a'' @ [10] @ utf16 ''      '' @ [10] @ utf16 ''    b'' \<and>
   footnoteDefinitionHandler plainHost []
     \<lparr>identifier = utf16 ''n'', label = utf16 ''n'',
      children = [paragraphNode (utf16 ''a'' @ [10] @ utf16 ''  '' @ [10] @ utf16 ''b'')]\<rparr>
     \<lparr>line = 1, column = 1, lineShift = 0\<rparr>
     \<noteq> utf16 ''[^n]: a'' @ [10] @ utf16 ''  '' @ [10] @ utf16 ''    b''"
  by code_simp


section \<open>Parsing and serializing a definition\<close>

subsection \<open>The label string token of a definition\<close>

text \<open>
  While a definition is tokenized, the exits of label string tokens are counted through
  the effects: entering a token and consuming a code add none, and an exit adds the token
  it closes when that is a label string.
\<close>

lemma tokens_consume [simp]: "tokensOfType T (effects_consume code c) = tokensOfType T c"
  by (simp add: tokensOfType_def effects_consume_def)

lemma tokens_footnotes [simp]: "tokensOfType T (c\<lparr>footnotes := f\<rparr>) = tokensOfType T c"
  by (simp add: tokensOfType_def)

lemma tokens_enter:
  assumes "eventsAllocated c"
  shows "tokensOfType T (effects_enter type c) = tokensOfType T c"
proof -
  have "filter (\<lambda>e. fst e = exit \<and> ttype (((store c)(fresh c := tk)) (snd e)) = T) (events c)
      = filter (\<lambda>e. fst e = exit \<and> ttype (store c (snd e)) = T) (events c)" for tk
    using assms by (intro filter_cong) (auto simp: eventsAllocated_def)
  then show ?thesis by (simp add: tokensOfType_def effects_enter_def)
qed

lemma tokens_exit:
  assumes "stack c = k # ks"
  shows "tokensOfType T (effects_exit type c)
     = tokensOfType T c @ (if ttype (store c k) = T then [k] else [])"
proof -
  have "filter (\<lambda>e. fst e = exit \<and>
                    ttype (((store c)(k := (store c k)\<lparr>tend := n\<rparr>)) (snd e)) = T) (events c)
      = filter (\<lambda>e. fst e = exit \<and> ttype (store c (snd e)) = T) (events c)" for n
    by (intro filter_cong) auto
  then show ?thesis using assms by (simp add: tokensOfType_def effects_exit_def)
qed

lemma allocated_enter [simp]: "eventsAllocated c \<Longrightarrow> eventsAllocated (effects_enter type c)"
  by (auto simp: eventsAllocated_def effects_enter_def)

lemma allocated_exit:
  "eventsAllocated c \<Longrightarrow> stack c = k # ks \<Longrightarrow> k < fresh c \<Longrightarrow>
   eventsAllocated (effects_exit type c)"
  by (auto simp: eventsAllocated_def effects_exit_def)

lemma allocated_consume [simp]: "eventsAllocated (effects_consume code c) = eventsAllocated c"
  by (auto simp: eventsAllocated_def effects_consume_def)

lemma allocated_footnotes [simp]: "eventsAllocated (c\<lparr>footnotes := f\<rparr>) = eventsAllocated c"
  by (auto simp: eventsAllocated_def)

text \<open>A token entered, filled with one code and exited: a marker, a line ending, a space.\<close>

lemma one_code_token:
  assumes "eventsAllocated c"
  shows "type \<noteq> T \<Longrightarrow>
         tokensOfType T (effects_exit type' (effects_consume code (effects_enter type c)))
           = tokensOfType T c"
    and "eventsAllocated (effects_exit type' (effects_consume code (effects_enter type c)))"
    and "stack (effects_exit type' (effects_consume code (effects_enter type c))) = stack c"
    and "fresh (effects_exit type' (effects_consume code (effects_enter type c))) = fresh c + 1"
    and "a < fresh c \<Longrightarrow>
         ttype (store (effects_exit type' (effects_consume code (effects_enter type c))) a)
           = ttype (store c a)"
  using assms
  by (auto simp: tokens_exit [of _ "fresh c" "stack c"] tokens_enter
      allocated_exit [of _ "fresh c" "stack c"] effects_store(2) [of _ "fresh c" "stack c"])

lemma tokens_exit_other:
  "\<forall>a\<in>set (stack c). ttype (store c a) \<noteq> T \<Longrightarrow>
   tokensOfType T (effects_exit type c) = tokensOfType T c"
  by (cases "stack c") (simp_all add: tokens_exit, simp add: effects_exit_def)

lemma allocated_exit_any:
  "eventsAllocated c \<Longrightarrow> \<forall>a\<in>set (stack c). a < fresh c \<Longrightarrow>
   eventsAllocated (effects_exit type c)"
  by (cases "stack c") (simp_all add: allocated_exit, simp add: effects_exit_def)

lemma ttype_exit [simp]: "ttype (store (effects_exit type c) a) = ttype (store c a)"
  by (cases "stack c") (simp_all add: effects_exit_def)

lemma labelStringOpen_consume [simp]:
  "labelStringOpen (effects_consume code c) t ts = labelStringOpen c t ts"
  by (simp add: labelStringOpen_def)

lemma labelStringOpen_enter:
  "labelStringOpen c t ts \<Longrightarrow> labelStringOpen (effects_enter type c) t ts"
  by (auto simp: labelStringOpen_def)

lemma labelStringOpen_exit:
  "labelStringOpen c t ts \<Longrightarrow> stack c = k # ks \<Longrightarrow> k < fresh c \<Longrightarrow>
   labelStringOpen (effects_exit type c) t ts"
  by (auto simp: labelStringOpen_def allocated_exit)

lemma labelAfter_tokens:
  assumes "labelAfter ident cs c input = ok (cs', c', rest')" "eventsAllocated c"
    and T: "T \<noteq> definitionMarker" "T \<noteq> footnoteDefinitionWhitespace"
  shows "tokensOfType T c' = tokensOfType T c"
proof -
  from assms(1) obtain rest where input: "input = 58 # rest"
    by (cases input) (auto simp: labelAfter_def split: if_splits)
  let ?c1 = "effects_exit definitionMarker (effects_consume 58 (effects_enter definitionMarker c))"
  have c1: "tokensOfType T ?c1 = tokensOfType T c" "eventsAllocated ?c1"
    using T by (simp_all add: one_code_token [OF assms(2)])
  have dn: "tokensOfType T d' = tokensOfType T d"
    if "definition_done ident x d i = ok (cs', d', rest')" for x d d' i
    using that by (auto simp: definition_done_def split: if_splits)
  show ?thesis
  proof (cases "tokenizeBlankLine ?c1 rest")
    case (ok r)
    with assms(1) have "definition_done ident (cs\<lparr>initialBlankLine := True\<rparr>) ?c1 rest
        = ok (cs', c', rest')"
      by (simp add: labelAfter_def input Let_def definition_onBlank_def)
    from dn [OF this] c1 show ?thesis by simp
  next
    case nok
    with assms(1) have nb: "definition_nonBlank ident cs ?c1 rest = ok (cs', c', rest')"
      by (simp add: labelAfter_def input Let_def)
    show ?thesis
    proof (cases rest)
      case Nil
      with nb dn [of cs ?c1 "[]" c'] c1 show ?thesis
        by (simp add: definition_nonBlank_def)
    next
      case (Cons code rest2)
      let ?c2 = "effects_exit footnoteDefinitionWhitespace
                   (effects_consume code (effects_enter footnoteDefinitionWhitespace ?c1))"
      have c2: "tokensOfType T ?c2 = tokensOfType T ?c1"
        using T by (simp add: one_code_token [OF c1(2)])
      from nb dn [of cs ?c1 "code # rest2" c'] dn [of cs ?c2 rest2 c'] c1 c2
      show ?thesis
        by (auto simp: definition_nonBlank_def Cons split: if_splits)
    qed
  qed
qed

lemma label_states_tokens:
  "atBreak cm cs sz dat c input = ok (cs', c', rest') \<Longrightarrow> stack c = t # ts \<Longrightarrow>
     labelStringOpen c t ts \<Longrightarrow>
     tokensOfType footnoteDefinitionLabelString c'
       = tokensOfType footnoteDefinitionLabelString c @ [t]"
  and "definition_label cm cs sz dat c input = ok (cs', c', rest') \<Longrightarrow> stack c = k # t # ts \<Longrightarrow>
     labelStringOpen c t ts \<Longrightarrow> k < fresh c \<Longrightarrow>
     ttype (store c k) \<noteq> footnoteDefinitionLabelString \<Longrightarrow>
     tokensOfType footnoteDefinitionLabelString c'
       = tokensOfType footnoteDefinitionLabelString c @ [t]"
  and "labelEscape cm cs sz dat c input = ok (cs', c', rest') \<Longrightarrow> stack c = k # t # ts \<Longrightarrow>
     labelStringOpen c t ts \<Longrightarrow> k < fresh c \<Longrightarrow>
     ttype (store c k) \<noteq> footnoteDefinitionLabelString \<Longrightarrow>
     tokensOfType footnoteDefinitionLabelString c'
       = tokensOfType footnoteDefinitionLabelString c @ [t]"
proof (induction cm cs sz dat c input and cm cs sz dat c input and cm cs sz dat c input
       arbitrary: k and k and k
       rule: atBreak_definition_label_labelEscape.induct)
  case (1 cm cs sz dat c)
  then show ?case by simp
next
  case (2 cm cs sz dat c code rest)
  note opn = "2.prems"(3)
  from "2.prems"(1) have ok1: "\<not> (code = 91 \<or> 999 < sz)" by (auto split: if_splits)
  from opn have al: "eventsAllocated c" and t: "t < fresh c"
    "ttype (store c t) = footnoteDefinitionLabelString"
    and ts: "\<forall>a\<in>set ts. a < fresh c \<and> ttype (store c a) \<noteq> footnoteDefinitionLabelString"
    by (simp_all add: labelStringOpen_def)
  show ?case
  proof (cases "code = 93")
    case True
    let ?c1 = "effects_exit footnoteDefinitionLabelString c"
    let ?m = "effects_exit footnoteDefinitionLabelMarker
                (effects_consume code (effects_enter footnoteDefinitionLabelMarker ?c1))"
    let ?c2 = "effects_exit footnoteDefinitionLabel ?m"
    from "2.prems"(1) ok1 True
    have la: "labelAfter (normalizeIdentifier cm (sliceSerialize ?c1 (exit_token c) False)) cs ?c2 rest
        = ok (cs', c', rest')"
      by (auto simp: Let_def split: if_splits)
    have c1: "tokensOfType footnoteDefinitionLabelString ?c1
        = tokensOfType footnoteDefinitionLabelString c @ [t]"
      "eventsAllocated ?c1" "stack ?c1 = ts" "fresh ?c1 = fresh c"
      using "2.prems"(2) t al by (simp_all add: tokens_exit allocated_exit)
    have m: "tokensOfType footnoteDefinitionLabelString ?m
        = tokensOfType footnoteDefinitionLabelString ?c1"
      "eventsAllocated ?m" "stack ?m = ts" "fresh ?m = fresh c + 1"
      "\<And>a. a < fresh c \<Longrightarrow> ttype (store ?m a) = ttype (store c a)"
      using c1(3,4) by (simp_all add: one_code_token [OF c1(2)])
    have "\<forall>a\<in>set ts. ttype (store ?m a) \<noteq> footnoteDefinitionLabelString"
      and "\<forall>a\<in>set ts. a < fresh ?m"
      unfolding m(4) using m(5) ts by auto
    then have oth: "\<forall>a\<in>set (stack ?m). ttype (store ?m a) \<noteq> footnoteDefinitionLabelString"
      and below: "\<forall>a\<in>set (stack ?m). a < fresh ?m"
      unfolding m(3) .
    have c2: "tokensOfType footnoteDefinitionLabelString ?c2
        = tokensOfType footnoteDefinitionLabelString ?m" "eventsAllocated ?c2"
      by (rule tokens_exit_other [OF oth], rule allocated_exit_any [OF m(2) below])
    from labelAfter_tokens [OF la c2(2)] c2(1) m(1) c1(1) show ?thesis by simp
  next
    case n93: False
    show ?thesis
    proof (cases "markdownLineEnding code")
      case True
      let ?c1 = "effects_exit lineEnding (effects_consume code (effects_enter lineEnding c))"
      from "2.prems"(1) ok1 n93 True
      have r: "atBreak cm cs (sz + 1) dat ?c1 rest = ok (cs', c', rest')" by simp
      have c1: "tokensOfType footnoteDefinitionLabelString ?c1
          = tokensOfType footnoteDefinitionLabelString c"
        "eventsAllocated ?c1" "stack ?c1 = t # ts" "fresh ?c1 = fresh c + 1"
        "\<And>a. a < fresh c \<Longrightarrow> ttype (store ?c1 a) = ttype (store c a)"
        using "2.prems"(2) by (simp_all add: one_code_token [OF al])
      have "labelStringOpen ?c1 t ts"
        unfolding labelStringOpen_def using c1 t ts by auto
      from "2.IH"(1) [OF ok1 n93 True r c1(3) this] c1(1) show ?thesis by simp
    next
      case False
      let ?c1 = "effects_enter chunkString c"
      from "2.prems"(1) ok1 n93 False
      have r: "definition_label cm cs sz dat ?c1 (code # rest) = ok (cs', c', rest')" by simp
      have "labelStringOpen ?c1 t ts" by (intro labelStringOpen_enter opn)
      from "2.IH"(2) [OF ok1 n93 False r _ this, of "fresh c"] "2.prems"(2) al
      show ?thesis by (simp add: tokens_enter)
    qed
  qed
next
  case (3 cm cs sz dat c)
  then show ?case by simp
next
  case (4 cm cs sz dat c code rest)
  note opn = "4.prems"(3)
  show ?case
  proof (cases "markdownLineEnding code \<or> code = 91 \<or> code = 93 \<or> 999 < sz")
    case True
    let ?c1 = "effects_exit chunkString c"
    from "4.prems"(1) True have r: "atBreak cm cs sz dat ?c1 (code # rest) = ok (cs', c', rest')"
      by simp
    have o: "labelStringOpen ?c1 t ts"
      by (rule labelStringOpen_exit [OF opn "4.prems"(2,4)])
    from "4.IH"(1) [OF True r _ o] "4.prems"(2,5) show ?thesis
      by (simp add: tokens_exit)
  next
    case False
    let ?c1 = "effects_consume code c"
    let ?dat1 = "if \<not> markdownLineEndingOrSpace code then True else dat"
    have st: "stack ?c1 = k # t # ts" "labelStringOpen ?c1 t ts" "k < fresh ?c1"
      "ttype (store ?c1 k) \<noteq> footnoteDefinitionLabelString"
      using "4.prems" by simp_all
    show ?thesis
    proof (cases "code = 92")
      case True
      with "4.prems"(1) False have "labelEscape cm cs (sz + 1) ?dat1 ?c1 rest = ok (cs', c', rest')"
        by (simp add: Let_def)
      from "4.IH"(2) [OF False refl refl True this st] show ?thesis by simp
    next
      case n: False
      with "4.prems"(1) False
      have "definition_label cm cs (sz + 1) ?dat1 ?c1 rest = ok (cs', c', rest')"
        by (simp add: Let_def)
      from "4.IH"(3) [OF False refl refl n this st] show ?thesis by simp
    qed
  qed
next
  case (5 cm cs sz dat c)
  then show ?case by simp
next
  case (6 cm cs sz dat c code rest)
  show ?case
  proof (cases "code = 91 \<or> code = 92 \<or> code = 93")
    case True
    let ?c1 = "effects_consume code c"
    have st: "stack ?c1 = k # t # ts" "labelStringOpen ?c1 t ts" "k < fresh ?c1"
      "ttype (store ?c1 k) \<noteq> footnoteDefinitionLabelString"
      using "6.prems" by simp_all
    from "6.prems"(1) True
    have "definition_label cm cs (sz + 1) dat ?c1 rest = ok (cs', c', rest')" by simp
    from "6.IH"(1) [OF True this st] show ?thesis by simp
  next
    case False
    with "6.prems"(1) have "definition_label cm cs sz dat c (code # rest) = ok (cs', c', rest')"
      by simp
    from "6.IH"(2) [OF False this "6.prems"(2-5)] show ?thesis .
  qed
qed


text \<open>
  From the empty context, a definition that the tokenizer accepts has exactly one label
  string token that exits: the token at address 4.
\<close>

lemma tokenizeDefinitionStart_tokens:
  assumes "tokenizeDefinitionStart cm cs emptyContext input = ok (cs', c', rest')"
  shows "tokensOfType footnoteDefinitionLabelString c' = [4]"
proof -
  from assms obtain code r where input: "input = code # 94 # r"
    by (cases input; cases "tl input")
       (auto simp: tokenizeDefinitionStart_def labelStart_def split: if_splits)
  let ?c0 = "effects_enter footnoteDefinitionLabelString
               (effects_exit footnoteDefinitionMarker
                 (effects_consume 94
                   (effects_enter footnoteDefinitionMarker
                     (effects_exit footnoteDefinitionLabelMarker
                       (effects_consume code
                         (effects_enter footnoteDefinitionLabelMarker
                           (effects_enter footnoteDefinitionLabel
                             (effects_enter footnoteDefinition emptyContext))))))))"
  from assms have r: "atBreak cm cs 0 False ?c0 r = ok (cs', c', rest')"
    by (simp add: tokenizeDefinitionStart_def labelStart_def input)
  have st: "stack ?c0 = 4 # [1, 0]"
    by (simp add: emptyContext_def)
  have opn: "labelStringOpen ?c0 4 [1, 0]"
    by (simp add: labelStringOpen_def eventsAllocated_def emptyContext_def effects_enter_def
        effects_exit_def effects_consume_def)
  have none: "tokensOfType footnoteDefinitionLabelString ?c0 = []"
    by (simp add: tokensOfType_def emptyContext_def effects_enter_def
        effects_exit_def effects_consume_def)
  from label_states_tokens(1) [OF r st opn] none show ?thesis by simp
qed


subsection \<open>The lines of a definition in its canonical form\<close>

lemma serializeChunks_codesOfText: "serializeChunks (codesOfText s) expandTabs = s"
proof -
  have "serializeChunks_from atTab (codesOfText s) expandTabs = s" for atTab
    by (induction s arbitrary: atTab) (auto simp: codesOfText_def)
  then show ?thesis by (simp add: serializeChunks_def)
qed

lemma codesOfText_append [simp]: "codesOfText (a @ b) = codesOfText a @ codesOfText b"
  by (simp add: codesOfText_def)

lemma codesOfText_Nil [simp]: "codesOfText [] = []"
  by (simp add: codesOfText_def)

lemma plainLine_codes:
  assumes "plainLine l"
  shows "list_all (\<lambda>code. \<not> markdownLineEnding code) (codesOfText l)"
    and "list_ex (\<lambda>code. \<not> markdownSpace code) (codesOfText l)"
    and "l \<noteq> []"
  using assms
  by (auto simp: plainLine_def codesOfText_def list_all_iff list_ex_iff markdownLineEnding_def
      markdownSpace_def)

lemma not_blank_line:
  assumes "list_all (\<lambda>code. \<not> markdownLineEnding code) pre"
    and "list_ex (\<lambda>code. \<not> markdownSpace code) pre"
  shows "\<not> isBlankLine (pre @ rest)"
proof -
  from assms(1) have "takeWhile (\<lambda>code. \<not> markdownLineEnding code) (pre @ rest)
      = pre @ takeWhile (\<lambda>code. \<not> markdownLineEnding code) rest"
    by (simp add: takeWhile_append2 list_all_iff)
  with assms(2) show ?thesis
    by (auto simp: isBlankLine_def list_all_iff list_ex_iff)
qed

lemma indented_line:
  assumes "plainLine l"
  shows "\<not> isBlankLine (codesOfText (utf16 ''    '' @ l))"
    and "4 \<le> indentOf (codesOfText (utf16 ''    '' @ l))"
    and "drop 4 (codesOfText (utf16 ''    '' @ l)) = codesOfText l"
proof -
  have sp: "codesOfText (utf16 ''    '') = [32, 32, 32, 32]"
    by (simp add: codesOfText_def utf16_def)
  have "list_all (\<lambda>code. \<not> markdownLineEnding code) ([32, 32, 32, 32] @ codesOfText l)"
    and "list_ex (\<lambda>code. \<not> markdownSpace code) ([32, 32, 32, 32] @ codesOfText l)"
    using plainLine_codes [OF assms] by (simp_all add: markdownLineEnding_def)
  from not_blank_line [OF this, of "[]"]
  show "\<not> isBlankLine (codesOfText (utf16 ''    '' @ l))" by (simp add: sp)
  show "4 \<le> indentOf (codesOfText (utf16 ''    '' @ l))"
    by (simp add: sp indentOf_def markdownSpace_def)
  show "drop 4 (codesOfText (utf16 ''    '' @ l)) = codesOfText l"
    by (simp add: sp)
qed

lemma continuationContent_lines:
  assumes "list_all (\<lambda>l. l = [] \<or> plainLine l) others"
    and "\<not> initialBlankLine cs" "\<not> furtherBlankLines cs"
  shows "continuationContent cs c
           (map (\<lambda>l. codesOfText (if l = [] then [] else utf16 ''    '' @ l)) others)
         = map codesOfText others"
  using assms
proof (induction others arbitrary: cs c)
  case Nil
  then show ?case by simp
next
  case (Cons l others)
  show ?case
  proof (cases "l = []")
    case True
    have "isBlankLine []" by (simp add: isBlankLine_def)
    with Cons True show ?thesis
      by (simp add: continuation_blank)
  next
    case False
    with Cons.prems(1) have pl: "plainLine l" by simp
    let ?input = "codesOfText (utf16 ''    '' @ l)"
    let ?r = "tokenizeDefinitionContinuation cs c ?input"
    note il = indented_line [OF pl]
    from continuation_accepts [of cs c ?input] il Cons.prems(3)
    have "accepted (snd ?r)" by simp
    then obtain c' rest where r: "snd ?r = ok (c', rest)"
      by (cases "snd ?r") (auto simp: accepted_def)
    from continuation_rest [OF il(1,2) Cons.prems(3), of c] r
    have rest: "rest = codesOfText l"
      and st: "fst ?r = cs\<lparr>initialBlankLine := False, furtherBlankLines := False\<rparr>"
      unfolding il(3) by (simp_all add: restOf_def del: codesOfText_append)
    from r st have "?r = (cs\<lparr>initialBlankLine := False, furtherBlankLines := False\<rparr>,
        ok (c', rest))"
      by (cases ?r) simp
    moreover from Cons.prems(1) have "list_all (\<lambda>l. l = [] \<or> plainLine l) others" by simp
    ultimately show ?thesis
      using False Cons.IH [of "cs\<lparr>initialBlankLine := False, furtherBlankLines := False\<rparr>" c']
      by (simp add: rest del: codesOfText_append)
  qed
qed

lemma splitLines_from_line:
  "list_all (\<lambda>code. \<not> markdownLineEnding code) l \<Longrightarrow>
   splitLines_from piece (l @ rest) = splitLines_from (piece @ l) rest"
  by (induction l arbitrary: piece) simp_all

lemma splitLines_from_lines:
  "list_all (list_all (\<lambda>code. \<not> markdownLineEnding code)) ls \<Longrightarrow>
   list_all (\<lambda>code. \<not> markdownLineEnding code) l \<Longrightarrow>
   splitLines_from [] (l @ concat (map (\<lambda>k. - 4 # k) ls)) = l # ls"
proof (induction ls arbitrary: l)
  case Nil
  then show ?case using splitLines_from_line [of l "[]" "[]"] by simp
next
  case (Cons k ls)
  from Cons.prems have "splitLines_from [] (l @ concat (map (\<lambda>k. - 4 # k) (k # ls)))
      = l # splitLines_from [] (k @ concat (map (\<lambda>k. - 4 # k) ls))"
    using splitLines_from_line [of l "[]" "- 4 # k @ concat (map (\<lambda>k. - 4 # k) ls)"]
    by (simp add: markdownLineEnding_def)
  with Cons show ?case by simp
qed

lemma splitEol_from_line:
  "eolFree l \<Longrightarrow> splitEol_from piece l = [piece @ l]"
  by (induction piece l rule: splitEol_from.induct) (auto simp: eolFree_def)

lemma splitEol_from_break:
  "eolFree l \<Longrightarrow> splitEol_from piece (l @ 10 # rest) = (piece @ l) # splitEol_from [] rest"
proof (induction l arbitrary: piece)
  case Nil
  then show ?case by (cases rest) simp_all
next
  case (Cons u l)
  then have u: "u \<noteq> 10" "u \<noteq> 13" and l: "eolFree l" by (simp_all add: eolFree_def)
  obtain v vs where "l @ 10 # rest = v # vs" by (cases "l @ 10 # rest") auto
  with u Cons.IH [OF l, of "piece @ [u]"] show ?case by simp
qed

lemma eolsOf_line: "eolFree l \<Longrightarrow> eolsOf l = []"
  by (induction l rule: eolsOf.induct) (auto simp: eolFree_def)

lemma eolsOf_break:
  "eolFree l \<Longrightarrow> eolsOf (l @ 10 # rest) = [10] # eolsOf rest"
proof (induction l)
  case Nil
  then show ?case by (cases rest) simp_all
next
  case (Cons u l)
  then have u: "u \<noteq> 10" "u \<noteq> 13" and l: "eolFree l" by (simp_all add: eolFree_def)
  obtain v vs where "l @ 10 # rest = v # vs" by (cases "l @ 10 # rest") auto
  with u Cons.IH [OF l] show ?case by simp
qed

lemma joinLines_Cons: "ls \<noteq> [] \<Longrightarrow> joinLines (l # ls) = l @ 10 # joinLines ls"
  by (cases ls) simp_all

lemma splitEol_joinLines:
  "list_all eolFree (l # ls) \<Longrightarrow> splitEol_from piece (joinLines (l # ls)) = (piece @ l) # ls"
proof (induction ls arbitrary: l piece)
  case Nil
  then show ?case by (simp add: splitEol_from_line)
next
  case (Cons k ls)
  from Cons.prems have l: "eolFree l" and rest: "list_all eolFree (k # ls)" by simp_all
  from Cons.IH [OF rest, of "[]"] show ?case
    by (simp add: splitEol_from_break [OF l])
qed

lemma eolsOf_joinLines:
  "list_all eolFree (l # ls) \<Longrightarrow> eolsOf (joinLines (l # ls)) = map (\<lambda>k. [10]) ls"
proof (induction ls arbitrary: l)
  case Nil
  then show ?case by (simp add: eolsOf_line)
next
  case (Cons k ls)
  from Cons.prems have l: "eolFree l" and rest: "list_all eolFree (k # ls)" by simp_all
  from Cons.IH [OF rest] show ?case
    by (simp add: eolsOf_break [OF l])
qed

lemma weave_lines:
  "weave (l # ls) (map (\<lambda>k. [10]) ls) = l @ concat (map (\<lambda>k. 10 # k) ls)"
  by (induction ls arbitrary: l) simp_all

lemma indentContinuation_lines:
  assumes "list_all eolFree (first # others)"
  shows "indentContinuation (joinLines (first # others))
    = first @ concat (map (\<lambda>l. 10 # (if l = [] then [] else utf16 ''    '' @ l)) others)"
  using weave_lines [of first "map (\<lambda>l. if l = [] then [] else utf16 ''    '' @ l) others"]
  by (simp add: indentContinuation_def splitEol_def splitEol_joinLines [OF assms]
      eolsOf_joinLines [OF assms] comp_def)


subsection \<open>The round trip\<close>

lemma parseDefinition_scan:
  assumes "scanDefinition cm input = Some ([raw], content)"
  shows "parseDefinition cm state input
     = Some \<lparr>identifier = toLowerCase cm (normalizeIdentifier cm raw), label = resume state raw,
              children = parseFlow state content\<rparr>"
proof -
  from assms obtain cs c rest
    where r: "tokenizeDefinitionStart cm emptyContainerState emptyContext input = ok (cs, c, rest)"
      and t: "map (\<lambda>token. sliceSerialize c token False)
                (tokensOfType footnoteDefinitionLabelString c) = [raw]"
      and d: "definitionContent cs c rest = content"
    by (auto simp: scanDefinition_def split: result.splits)
  from t obtain token where tk: "tokensOfType footnoteDefinitionLabelString c = [token]"
    and sl: "sliceSerialize c token False = raw"
    by (cases "tokensOfType footnoteDefinitionLabelString c") auto
  show ?thesis
    by (simp add: parseDefinition_def r definitionNodes_def tk sl d
        exitFootnoteDefinitionLabelString_def enterFootnoteDefinition_def)
qed

lemma plainLine_eolFree: "plainLine l \<Longrightarrow> eolFree l"
  by (auto simp: plainLine_def eolFree_def list_all_iff)

lemma codesOfText_lines:
  "codesOfText (concat (map (\<lambda>l. 10 # f l) ls))
     = concat (map (\<lambda>k. - 4 # k) (map (\<lambda>l. codesOfText (f l)) ls))"
  by (induction ls) (simp_all add: codesOfText_def)

lemma scanDefinition_canonical:
  assumes lab: "plainLine lab" "labelBody (codesOfText lab)" "length lab \<le> 999"
    and body: "plainLine first" "list_all (\<lambda>l. l = [] \<or> plainLine l) others"
  shows "scanDefinition cm (codesOfText (definitionText lab first others))
           = Some ([lab], map codesOfText (first # others))"
proof -
  let ?ind = "\<lambda>l. codesOfText (if l = [] then [] else utf16 ''    '' @ l)"
  let ?tail = "concat (map (\<lambda>k. - 4 # k) (map ?ind others))"
  let ?rest = "32 # codesOfText first @ ?tail"
  have input: "codesOfText (definitionText lab first others)
      = 91 # 94 # codesOfText lab @ 93 # 58 # ?rest"
    by (simp add: definitionText_def codesOfText_lines) (simp add: utf16_def codesOfText_def)
  have dat: "hasData (codesOfText lab)"
    using lab(1)
    by (auto simp: plainLine_def hasData_def codesOfText_def list_ex_iff list_all_iff
        markdownLineEndingOrSpace_def)
  have len: "\<not> length (codesOfText lab) > 999"
    using lab(3) by (simp add: codesOfText_def)
  have nb: "\<not> isBlankLine ?rest"
    using not_blank_line [of "32 # codesOfText first" ?tail] plainLine_codes [OF body(1)]
    by (simp add: markdownLineEnding_def)
  from tokenizeDefinitionStart_label [OF lab(2), of cm emptyContainerState emptyContext ?rest]
    dat len nb
  obtain c' where r: "tokenizeDefinitionStart cm emptyContainerState emptyContext
        (91 # 94 # codesOfText lab @ 93 # 58 # ?rest)
      = ok (emptyContainerState, c', codesOfText first @ ?tail)"
    and raw: "sliceSerialize c' 4 False = lab"
    by (auto simp: markdownSpace_def emptyContext_def serializeChunks_codesOfText)
  from tokenizeDefinitionStart_tokens [OF r]
  have tk: "tokensOfType footnoteDefinitionLabelString c' = [4]" .
  have lines: "list_all (list_all (\<lambda>code. \<not> markdownLineEnding code)) (map ?ind others)"
    using body(2) indented_line(1) plainLine_codes(1)
  proof (induction others)
    case Nil
    then show ?case by simp
  next
    case (Cons l ls)
    show ?case
    proof (cases "l = []")
      case True
      with Cons show ?thesis by simp
    next
      case False
      with Cons.prems(1) have pl: "plainLine l" by simp
      have "list_all (\<lambda>code. \<not> markdownLineEnding code)
              ([32, 32, 32, 32] @ codesOfText l)"
        using plainLine_codes(1) [OF pl] by (simp add: markdownLineEnding_def)
      then have "list_all (\<lambda>code. \<not> markdownLineEnding code) (?ind l)"
        using False by (simp add: utf16_def codesOfText_def)
      with Cons show ?thesis by simp
    qed
  qed
  have split: "splitLines (codesOfText first @ ?tail) = codesOfText first # map ?ind others"
    unfolding splitLines_def
    by (rule splitLines_from_lines [OF lines plainLine_codes(1) [OF body(1)]])
  have content: "definitionContent emptyContainerState c' (codesOfText first @ ?tail)
      = map codesOfText (first # others)"
    unfolding definitionContent_def split
    using continuationContent_lines [OF body(2), of emptyContainerState c']
    by (simp add: emptyContainerState_def)
  have "scanDefinition cm (91 # 94 # codesOfText lab @ 93 # 58 # ?rest)
      = Some (map (\<lambda>token. sliceSerialize c' token False)
               (tokensOfType footnoteDefinitionLabelString c'),
              definitionContent emptyContainerState c' (codesOfText first @ ?tail))"
    by (simp only: scanDefinition_def r result.case prod.case)
  then show ?thesis
    by (simp only: input tk content list.map raw)
qed

lemma joinLines_not_empty: "first \<noteq> [] \<Longrightarrow> joinLines (first # others) \<noteq> []"
  by (cases others) simp_all

text \<open>
  The host of plain paragraphs writes back what it reads: one paragraph of one line, and
  two paragraphs of one line each with an empty line between them.
\<close>

lemma plainLine_not_spaces: "plainLine l \<Longrightarrow> \<not> list_all markdownSpace (codesOfText l)"
  using plainLine_codes(2) [of l] by (auto simp: list_all_iff list_ex_iff)

lemma plainHost_one_paragraph:
  assumes "plainLine a"
  shows "containerFlow plainHost names info (parseFlow plainHost (map codesOfText [a])) = a"
  using plainLine_not_spaces [OF assms] plainLine_codes(3) [OF assms]
  by (simp add: plainHost_def containerFlow_def move_def Let_def serializeChunks_codesOfText)

lemma plainHost_two_paragraphs:
  assumes "plainLine a" "plainLine b"
  shows "containerFlow plainHost names info (parseFlow plainHost (map codesOfText [a, [], b]))
           = joinLines [a, [], b]"
  using plainLine_not_spaces [OF assms(1)] plainLine_not_spaces [OF assms(2)]
    plainLine_codes(3) [OF assms(1)] plainLine_codes(3) [OF assms(2)]
  by (simp add: plainHost_def containerFlow_def move_def Let_def between_def
      serializeChunks_codesOfText)

text \<open>
  Claim C2. Take a definition in its canonical form: a label on one line that the
  definition tokenizer accepts, a first line of content after the colon and one space,
  and later lines of content that are each empty or a plain line indented by four
  spaces (so a paragraph, an empty line and a second paragraph, of one line or of
  several). The paragraphs and the escapes are the host's: the theorem holds in any host
  that writes this label as it is and writes the content it parsed from these lines as
  these lines. Then parsing the text of the definition and serializing the node
  reproduces exactly that text, every line after the first indented by exactly four
  columns and the empty lines left empty. The text \<^verbatim>\<open>[^1]: note\<close> is the case of
  one line of content, and \<^verbatim>\<open>[^n]: a\<close>, an empty line and \<^verbatim>\<open>b\<close> indented by
  four spaces the case of two paragraphs.
\<close>

theorem definition_round_trip:
  fixes state :: "'n host" and safeOptions :: trackFields
  assumes lab: "plainLine lab" "labelBody (codesOfText lab)" "length lab \<le> 999"
    and host_label: "resume state lab = lab"
      "\<And>config. safe state [''footnoteDefinition'', ''label''] lab config = lab"
    and body: "plainLine first" "list_all (\<lambda>l. l = [] \<or> plainLine l) others"
    and host_body: "\<And>info :: trackFields.
      containerFlow state [''footnoteDefinition''] info
        (parseFlow state (map codesOfText (first # others))) = joinLines (first # others)"
  shows "map_option (\<lambda>node. footnoteDefinitionHandler state [] node safeOptions)
           (parseDefinition cm state (codesOfText (definitionText lab first others)))
         = Some (definitionText lab first others)"
proof -
  define content where "content = parseFlow state (map codesOfText (first # others))"
  let ?node = "\<lparr>identifier = toLowerCase cm (normalizeIdentifier cm lab), label = lab,
                 children = content\<rparr>"
  have flow: "containerFlow state [''footnoteDefinition''] info content
      = joinLines (first # others)" for info :: trackFields
    unfolding content_def by (rule host_body)
  from parseDefinition_scan [OF scanDefinition_canonical [OF lab body], of cm state]
  have parsed: "parseDefinition cm state (codesOfText (definitionText lab first others))
      = Some ?node"
    by (simp only: host_label(1) content_def)
  from plainLine_codes(3) [OF lab(1)] have ne: "lab \<noteq> []" .
  have ch: "content \<noteq> []"
  proof
    assume "content = []"
    with flow [of "\<lparr>line = 1, column = 1, lineShift = 0\<rparr>"]
      joinLines_not_empty [OF plainLine_codes(3) [OF body(1)], of others]
    show False by (simp add: containerFlow_def)
  qed
  have "eolFree l" if "l = [] \<or> plainLine l" for l
    using that plainLine_eolFree [of l] by (auto simp: eolFree_def)
  with body have free: "list_all eolFree (first # others)"
    by (simp add: list_all_iff)
  from footnoteDefinitionHandler_value [of state "[]" ?node safeOptions]
  obtain config and info :: trackFields where
    "footnoteDefinitionHandler state [] ?node safeOptions
       = utf16 ''[^''
         @ safe state [''footnoteDefinition'', ''label''] (association state ?node) config
         @ utf16 '']:'' @ (if children ?node \<noteq> [] then utf16 '' '' else [])
         @ indentLines (containerFlow state [''footnoteDefinition''] info (children ?node))
             footnoteDefinition_map"
    by auto
  then have "footnoteDefinitionHandler state [] ?node safeOptions
      = definitionText lab first others"
    using ne ch
    by (simp add: association_def host_label(2) flow indentLines_eq
        indentContinuation_lines [OF free] definitionText_def utf16_def)
  with parsed show ?thesis by simp
qed


text \<open>
  Three instances in the host of plain paragraphs: \<^verbatim>\<open>[^1]: note\<close>; the definition
  \<^verbatim>\<open>[^n]: a\<close>, an empty line, \<^verbatim>\<open>b\<close> indented by four spaces; and a definition
  of two paragraphs of two lines each.
\<close>

theorem definition_round_trip_witness:
  "map_option
     (\<lambda>node. footnoteDefinitionHandler plainHost [] node \<lparr>line = 1, column = 1, lineShift = 0\<rparr>)
     (parseDefinition latin1 plainHost (codes ''[^1]: note''))
   = Some (utf16 ''[^1]: note'') \<and>
   map_option
     (\<lambda>node. footnoteDefinitionHandler plainHost [] node \<lparr>line = 1, column = 1, lineShift = 0\<rparr>)
     (parseDefinition latin1 plainHost (codes ''[^n]: a'' @ [- 4, - 4] @ codes ''    b''))
   = Some (utf16 ''[^n]: a'' @ [10, 10] @ utf16 ''    b'') \<and>
   map_option
     (\<lambda>node. footnoteDefinitionHandler plainHost [] node \<lparr>line = 1, column = 1, lineShift = 0\<rparr>)
     (parseDefinition latin1 plainHost
        (codes ''[^n]: a1'' @ [- 4] @ codes ''    a2'' @ [- 4, - 4]
         @ codes ''    b1'' @ [- 4] @ codes ''    b2''))
   = Some (utf16 ''[^n]: a1'' @ [10] @ utf16 ''    a2'' @ [10, 10]
           @ utf16 ''    b1'' @ [10] @ utf16 ''    b2'')"
proof -
  have pl: "plainLine (utf16 ''1'')" "plainLine (utf16 ''n'')" "plainLine (utf16 ''note'')"
    "plainLine (utf16 ''a'')" "plainLine (utf16 ''b'')" "plainLine (utf16 ''a1'')"
    "plainLine (utf16 ''a2'')" "plainLine (utf16 ''b1'')" "plainLine (utf16 ''b2'')"
    by (simp_all add: plainLine_def utf16_def)
  have lb: "labelBody (codesOfText (utf16 ''1''))" "length (utf16 ''1'') \<le> 999"
    "labelBody (codesOfText (utf16 ''n''))" "length (utf16 ''n'') \<le> 999"
    by (simp_all add: codesOfText_def utf16_def)
  have host: "resume plainHost lab = lab"
    "safe plainHost [''footnoteDefinition'', ''label''] lab config = lab" for lab config
    by (simp_all add: plainHost_def)
  have flow3: "containerFlow plainHost [''footnoteDefinition''] info
      (parseFlow plainHost
         (map codesOfText
            (utf16 ''a1'' # [utf16 ''a2'', [], utf16 ''b1'', utf16 ''b2''])))
      = joinLines (utf16 ''a1'' # [utf16 ''a2'', [], utf16 ''b1'', utf16 ''b2''])"
    for info :: trackFields
    by (simp add: plainHost_def containerFlow_def move_def Let_def between_def
        serializeChunks_def codesOfText_def utf16_def markdownSpace_def)
  have 1: "map_option
     (\<lambda>node. footnoteDefinitionHandler plainHost [] node \<lparr>line = 1, column = 1, lineShift = 0\<rparr>)
     (parseDefinition latin1 plainHost
        (codesOfText (definitionText (utf16 ''1'') (utf16 ''note'') [])))
     = Some (definitionText (utf16 ''1'') (utf16 ''note'') [])"
    by (rule definition_round_trip [OF pl(1) lb(1,2) host pl(3)])
       (simp_all add: plainHost_one_paragraph [OF pl(3), simplified])
  have 2: "map_option
     (\<lambda>node. footnoteDefinitionHandler plainHost [] node \<lparr>line = 1, column = 1, lineShift = 0\<rparr>)
     (parseDefinition latin1 plainHost
        (codesOfText (definitionText (utf16 ''n'') (utf16 ''a'') ([] # [utf16 ''b'']))))
     = Some (definitionText (utf16 ''n'') (utf16 ''a'') ([] # [utf16 ''b'']))"
    by (rule definition_round_trip [OF pl(2) lb(3,4) host pl(4)])
       (simp_all add: pl plainHost_two_paragraphs [OF pl(4,5), simplified])
  have 3: "map_option
     (\<lambda>node. footnoteDefinitionHandler plainHost [] node \<lparr>line = 1, column = 1, lineShift = 0\<rparr>)
     (parseDefinition latin1 plainHost
        (codesOfText (definitionText (utf16 ''n'') (utf16 ''a1'')
           [utf16 ''a2'', [], utf16 ''b1'', utf16 ''b2''])))
     = Some (definitionText (utf16 ''n'') (utf16 ''a1'')
           [utf16 ''a2'', [], utf16 ''b1'', utf16 ''b2''])"
    by (rule definition_round_trip [OF pl(2) lb(3,4) host pl(6) _ flow3])
       (simp add: pl)
  have tc: "codesOfText (definitionText (utf16 ''1'') (utf16 ''note'') []) = codes ''[^1]: note''"
    "codesOfText (definitionText (utf16 ''n'') (utf16 ''a'') ([] # [utf16 ''b'']))
       = codes ''[^n]: a'' @ [- 4, - 4] @ codes ''    b''"
    "codesOfText (definitionText (utf16 ''n'') (utf16 ''a1'')
           [utf16 ''a2'', [], utf16 ''b1'', utf16 ''b2''])
       = codes ''[^n]: a1'' @ [- 4] @ codes ''    a2'' @ [- 4, - 4]
         @ codes ''    b1'' @ [- 4] @ codes ''    b2''"
    by (simp_all add: definitionText_def codesOfText_def codes_def utf16_def)
  have tt: "definitionText (utf16 ''1'') (utf16 ''note'') [] = utf16 ''[^1]: note''"
    "definitionText (utf16 ''n'') (utf16 ''a'') ([] # [utf16 ''b''])
       = utf16 ''[^n]: a'' @ [10, 10] @ utf16 ''    b''"
    "definitionText (utf16 ''n'') (utf16 ''a1'') [utf16 ''a2'', [], utf16 ''b1'', utf16 ''b2'']
       = utf16 ''[^n]: a1'' @ [10] @ utf16 ''    a2'' @ [10, 10]
         @ utf16 ''    b1'' @ [10] @ utf16 ''    b2''"
    by (simp_all add: definitionText_def utf16_def)
  from 1 [unfolded tc, unfolded tt] 2 [unfolded tc, unfolded tt] 3 [unfolded tc, unfolded tt]
  show ?thesis by (intro conjI)
qed

end
